theory Spec2Isabelle
  imports Complex_Main "HOL-Library.AList" "HOL-Library.List_Lexorder" "HOL-Library.Char_ord"
begin

section \<open>Dates and times\<close>

text \<open>
  A Python \<^verbatim>\<open>datetime\<close> that carries a pytz zone is modelled by its wall-clock
  fields and the UTC offset of the zone object attached to it.  The wall clock is one
  integer: the microseconds since midnight of proleptic Gregorian ordinal day 0, so that
  \<^verbatim>\<open>toordinal()\<close> is the quotient by one day and the time of day the remainder.
  Every pytz zone object has one fixed offset; \<^verbatim>\<open>replace\<close> and the addition of a
  \<^verbatim>\<open>timedelta\<close> change the wall clock only and keep the zone object.  Comparison and
  subtraction of two aware values go through their UTC instants.
\<close>

datatype error = ValueError | OverflowError | AttributeError | KeyError

definition SEC :: int where "SEC = 1000000"
definition MINUTE :: int where "MINUTE = 60000000"
definition HOUR :: int where "HOUR = 3600000000"
definition DAY :: int where "DAY = 86400000000"

text \<open>\<^verbatim>\<open>date.max.toordinal()\<close>, the ordinal of 9999-12-31, and the last representable
  wall clock 9999-12-31T23:59:59.999999.\<close>

definition MAXORD :: int where "MAXORD = 3652059"
definition MAX_WALL :: int where "MAX_WALL = MAXORD * DAY + DAY - 1"

definition WORK_START_HOUR :: int where "WORK_START_HOUR = 8"
definition WORK_END_HOUR :: int where "WORK_END_HOUR = 17"

record datetime =
  wall :: int
  utcoffset :: int

definition instant :: "datetime \<Rightarrow> int" where
  "instant d = wall d - utcoffset d"

definition date_of :: "datetime \<Rightarrow> int" where
  "date_of d = wall d div DAY"

definition weekday :: "datetime \<Rightarrow> int" where
  "weekday d = (date_of d + 6) mod 7"

text \<open>\<^verbatim>\<open>dt.replace(hour=h, minute=0, second=0, microsecond=0)\<close>\<close>

definition replace_hour :: "datetime \<Rightarrow> int \<Rightarrow> datetime" where
  "replace_hour d h = d\<lparr>wall := date_of d * DAY + h * HOUR\<rparr>"

text \<open>\<^verbatim>\<open>dt + timedelta(days=1)\<close> raises OverflowError past year 9999.\<close>

definition add_one_day :: "datetime \<Rightarrow> error + datetime" where
  "add_one_day d =
     (if wall d + DAY > MAX_WALL then Inl OverflowError else Inr (d\<lparr>wall := wall d + DAY\<rparr>))"

text \<open>Python's \<^verbatim>\<open>max(a, b)\<close> and \<^verbatim>\<open>min(a, b)\<close> keep the first argument unless the
  second is strictly greater (smaller).\<close>

definition py_max :: "datetime \<Rightarrow> datetime \<Rightarrow> datetime" where
  "py_max a b = (if instant b > instant a then b else a)"

definition py_min :: "datetime \<Rightarrow> datetime \<Rightarrow> datetime" where
  "py_min a b = (if instant b < instant a then b else a)"

section \<open>Work calendar\<close>

definition is_working_day :: "datetime \<Rightarrow> bool" where
  "is_working_day d = (weekday d \<noteq> 5 \<and> weekday d \<noteq> 6)"

text \<open>\<^verbatim>\<open>(cur + timedelta(days=1)).replace(hour=WORK_START_HOUR, minute=0, ...)\<close>\<close>

definition next_day_start :: "datetime \<Rightarrow> error + datetime" where
  "next_day_start cur =
     (case add_one_day cur of
        Inl e \<Rightarrow> Inl e
      | Inr d \<Rightarrow> Inr (replace_hour d WORK_START_HOUR))"

text \<open>
  One pass through the body of the day loop of \<^verbatim>\<open>add_working_time_segment\<close>, from the
  cursor and the running total to the next cursor and total.  Durations are
  microseconds.
\<close>

definition aws_body :: "datetime \<Rightarrow> datetime \<Rightarrow> int \<Rightarrow> error + (datetime \<times> int)" where
  "aws_body end_dt cur tot =
     (if \<not> is_working_day cur then
        (case next_day_start cur of
           Inl e \<Rightarrow> Inl e
         | Inr cur' \<Rightarrow> Inr (cur', tot))
      else
        (let day_start = replace_hour cur WORK_START_HOUR;
             day_end = replace_hour cur WORK_END_HOUR;
             seg_start = py_max cur day_start;
             seg_end = py_min end_dt day_end;
             tot' = (if instant seg_start < instant seg_end
                     then tot + (instant seg_end - instant seg_start) else tot)
         in case next_day_start cur of
              Inl e \<Rightarrow> Inl e
            | Inr cur' \<Rightarrow> Inr (cur', tot')))"

lemma next_day_start_date:
  "next_day_start cur = Inr cur' \<Longrightarrow> date_of cur' = date_of cur + 1"
  by (auto simp: next_day_start_def add_one_day_def replace_hour_def date_of_def DAY_def
      HOUR_def WORK_START_HOUR_def split: if_splits)

lemma aws_body_date:
  "aws_body end_dt cur tot = Inr (cur', tot') \<Longrightarrow> date_of cur' = date_of cur + 1"
  by (auto simp: aws_body_def Let_def dest: next_day_start_date split: if_splits sum.splits)

text \<open>The loop \<^verbatim>\<open>while cur.date() <= end_dt.date()\<close>.\<close>

function aws_loop :: "datetime \<Rightarrow> datetime \<Rightarrow> int \<Rightarrow> error + int" where
  "aws_loop end_dt cur tot =
     (if date_of cur \<le> date_of end_dt then
        (case aws_body end_dt cur tot of
           Inl e \<Rightarrow> Inl e
         | Inr (cur', tot') \<Rightarrow> aws_loop end_dt cur' tot')
      else Inr tot)"
  by pat_completeness auto
termination
  by (relation "measure (\<lambda>(end_dt, cur, tot). nat (date_of end_dt - date_of cur + 1))")
     (auto dest: aws_body_date)

declare aws_loop.simps [simp del]


definition add_working_time_segment :: "datetime \<Rightarrow> datetime \<Rightarrow> error + int" where
  "add_working_time_segment start_dt end_dt =
     (if instant end_dt \<le> instant start_dt then Inr 0 else aws_loop end_dt start_dt 0)"

section \<open>Strings and period dates\<close>

text \<open>
  \<^verbatim>\<open>str.lower()\<close> folds the letters of every script, which a function on the
  characters of \<open>string\<close> cannot spell out; it is the parameter \<open>lower\<close> of the
  functions that call it.
\<close>

text \<open>\<^verbatim>\<open>dt_str.replace("Z", "+00:00")\<close>\<close>

definition replace_Z :: "string \<Rightarrow> string" where
  "replace_Z s = concat (map (\<lambda>c. if c = CHR ''Z'' then ''+00:00'' else [c]) s)"

text \<open>The calendar arithmetic of CPython's \<^verbatim>\<open>datetime\<close> module
  (\<^verbatim>\<open>_is_leap\<close>, \<^verbatim>\<open>_days_before_year\<close>, \<^verbatim>\<open>_days_in_month\<close>,
  \<^verbatim>\<open>_days_before_month\<close>, \<^verbatim>\<open>_ymd2ord\<close>).\<close>

definition is_leap :: "int \<Rightarrow> bool" where
  "is_leap y = (y mod 4 = 0 \<and> (y mod 100 \<noteq> 0 \<or> y mod 400 = 0))"

definition days_before_year :: "int \<Rightarrow> int" where
  "days_before_year y = (y - 1) * 365 + (y - 1) div 4 - (y - 1) div 100 + (y - 1) div 400"

definition days_in_month :: "int \<Rightarrow> int \<Rightarrow> int" where
  "days_in_month y m =
     (if m = 2 \<and> is_leap y then 29
      else [31, 28, 31, 30, 31, 30, 31, 31, 30, 31, 30, 31] ! nat (m - 1))"

definition days_before_month :: "int \<Rightarrow> int \<Rightarrow> int" where
  "days_before_month y m =
     [0, 31, 59, 90, 120, 151, 181, 212, 243, 273, 304, 334] ! nat (m - 1)
       + (if m > 2 \<and> is_leap y then 1 else 0)"

definition ymd2ord :: "int \<Rightarrow> int \<Rightarrow> int \<Rightarrow> int" where
  "ymd2ord y m d = days_before_year y + days_before_month y m + d"

text \<open>
  \<^verbatim>\<open>datetime.strptime(s, "%Y-%m-%d")\<close>.  The format compiles to the regular expression
  \<^verbatim>\<open>(\d\d\d\d)-(1[0-2]|0[1-9]|[1-9])-(3[0-1]|[1-2]\d|0[1-9]|[1-9]| [1-9])\<close>, which has
  to consume the whole string; the three fields contain no dash, so they are the three
  pieces of the string between its dashes.  The date is then built by the
  \<^verbatim>\<open>datetime\<close> constructor, which rejects year 0 and a day past the end of the month.
  The result is the ordinal of the date (the time of day of the parsed value is 00:00).
  Digits are the ASCII digits.
\<close>

definition digit_of :: "char \<Rightarrow> int option" where
  "digit_of c =
     (let n = (of_char c :: nat) in if 48 \<le> n \<and> n \<le> 57 then Some (int n - 48) else None)"

fun split_on :: "char \<Rightarrow> string \<Rightarrow> string list" where
  "split_on c [] = [[]]"
| "split_on c (x # xs) =
     (if x = c then [] # split_on c xs
      else (case split_on c xs of [] \<Rightarrow> [[x]] | p # ps \<Rightarrow> (x # p) # ps))"

definition parse_year :: "string \<Rightarrow> int option" where
  "parse_year s =
     (case map digit_of s of
        [Some a, Some b, Some c, Some d] \<Rightarrow> Some (1000 * a + 100 * b + 10 * c + d)
      | _ \<Rightarrow> None)"

definition parse_month :: "string \<Rightarrow> int option" where
  "parse_month s =
     (case map digit_of s of
        [Some a] \<Rightarrow> (if 1 \<le> a then Some a else None)
      | [Some a, Some b] \<Rightarrow>
          (if a = 1 \<and> b \<le> 2 then Some (10 + b)
           else if a = 0 \<and> 1 \<le> b then Some b
           else None)
      | _ \<Rightarrow> None)"

definition parse_day :: "string \<Rightarrow> int option" where
  "parse_day s =
     (case s of
        [x] \<Rightarrow> (case digit_of x of Some a \<Rightarrow> (if 1 \<le> a then Some a else None) | None \<Rightarrow> None)
      | [x, y] \<Rightarrow>
          (case digit_of y of
             None \<Rightarrow> None
           | Some b \<Rightarrow>
               (if x = CHR '' '' then (if 1 \<le> b then Some b else None)
                else (case digit_of x of
                        None \<Rightarrow> None
                      | Some a \<Rightarrow>
                          (if a = 3 \<and> b \<le> 1 then Some (30 + b)
                           else if a = 1 \<or> a = 2 then Some (10 * a + b)
                           else if a = 0 \<and> 1 \<le> b then Some b
                           else None))))
      | _ \<Rightarrow> None)"

definition strptime_ymd :: "string \<Rightarrow> error + int" where
  "strptime_ymd s =
     (case split_on CHR ''-'' s of
        [ys, ms, ds] \<Rightarrow>
          (case (parse_year ys, parse_month ms, parse_day ds) of
             (Some y, Some m, Some d) \<Rightarrow>
               (if 1 \<le> y \<and> d \<le> days_in_month y m then Inr (ymd2ord y m d)
                else Inl ValueError)
           | _ \<Rightarrow> Inl ValueError)
      | _ \<Rightarrow> Inl ValueError)"

section \<open>The zone object and the timestamp normalizer\<close>

text \<open>
  \<^verbatim>\<open>MOSCOW_TZ = timezone("Europe/Moscow")\<close> is an object of the pytz library, which is
  not part of the repository; the functions below take it as a parameter with the two
  things the code asks of it.  \<open>zone_utcoffset\<close> is the offset of the zone object
  itself, which is what \<^verbatim>\<open>replace(tzinfo=MOSCOW_TZ)\<close> attaches to a value.
  \<open>utcoffset_at\<close> gives, for a UTC instant, the offset in force in the zone at that
  instant, which is what \<^verbatim>\<open>astimezone(MOSCOW_TZ)\<close> selects.  Offsets are microseconds.
\<close>

record tzinfo =
  zone_utcoffset :: int
  utcoffset_at :: "int \<Rightarrow> int"

definition MIN_WALL :: int where "MIN_WALL = DAY"

text \<open>
  \<^verbatim>\<open>dt.astimezone(tz)\<close> first takes the value to UTC (\<^verbatim>\<open>self - offset\<close>) and then
  to the zone's wall clock (\<^verbatim>\<open>tz.fromutc\<close>, which adds the zone's offset at that
  instant); either step raises OverflowError when it leaves years 1 to 9999.
\<close>

definition astimezone :: "tzinfo \<Rightarrow> datetime \<Rightarrow> error + datetime" where
  "astimezone tz d =
     (let utc = instant d
      in if utc < MIN_WALL \<or> MAX_WALL < utc then Inl OverflowError
         else
           (let off = utcoffset_at tz utc; w = utc + off
            in if w < MIN_WALL \<or> MAX_WALL < w then Inl OverflowError
               else Inr \<lparr>wall = w, utcoffset = off\<rparr>))"

text \<open>
  \<^verbatim>\<open>datetime.fromisoformat\<close> is the parameter \<open>fromisoformat\<close>: the aware value a
  string denotes, or ValueError.  (For a string without an offset it gives the value
  with the offset of the system's zone, which is how \<^verbatim>\<open>astimezone\<close> reads a naive
  value.)
\<close>

definition parse_iso_to_msk ::
  "(string \<Rightarrow> error + datetime) \<Rightarrow> tzinfo \<Rightarrow> string \<Rightarrow> error + datetime" where
  "parse_iso_to_msk fromisoformat MOSCOW_TZ dt_str =
     (case fromisoformat (replace_Z dt_str) of
        Inl e \<Rightarrow> Inl e
      | Inr d \<Rightarrow> astimezone MOSCOW_TZ d)"

section \<open>History records\<close>

datatype json =
  JNull | JBool bool | JNum rat | JStr string | JArr "json list" | JObj "(string \<times> json) list"

definition truthy :: "json \<Rightarrow> bool" where
  "truthy v =
     (case v of
        JNull \<Rightarrow> False
      | JBool b \<Rightarrow> b
      | JNum n \<Rightarrow> n \<noteq> 0
      | JStr s \<Rightarrow> s \<noteq> []
      | JArr xs \<Rightarrow> xs \<noteq> []
      | JObj kvs \<Rightarrow> kvs \<noteq> [])"

text \<open>\<^verbatim>\<open>v.get(k, default)\<close>: only a dict has the method.\<close>

definition py_get :: "json \<Rightarrow> string \<Rightarrow> json \<Rightarrow> error + json" where
  "py_get v k dflt =
     (case v of
        JObj kvs \<Rightarrow> (case map_of kvs k of None \<Rightarrow> Inr dflt | Some x \<Rightarrow> Inr x)
      | _ \<Rightarrow> Inl AttributeError)"

text \<open>
  The body of the \<^verbatim>\<open>try\<close> in the loop over the history.  \<open>None\<close> is an entry that
  adds no event: by \<^verbatim>\<open>continue\<close>, or by an exception, which the \<^verbatim>\<open>except\<close> clause
  turns into \<^verbatim>\<open>continue\<close> as well.
\<close>

definition event_of_entry ::
  "(string \<Rightarrow> string) \<Rightarrow> (string \<Rightarrow> error + datetime) \<Rightarrow> tzinfo \<Rightarrow> json \<Rightarrow> (datetime \<times> string) option" where
  "event_of_entry lower fromisoformat MOSCOW_TZ e =
     (case py_get e ''data'' (JObj []) of
        Inl _ \<Rightarrow> None
      | Inr d \<Rightarrow>
     (case py_get d ''newValue'' (JObj []) of
        Inl _ \<Rightarrow> None
      | Inr nv \<Rightarrow>
     (case py_get nv ''statusName'' JNull of
        Inl _ \<Rightarrow> None
      | Inr sn \<Rightarrow>
     (case (if truthy sn then sn else JStr []) of
        JStr s \<Rightarrow>
          (let new_status = lower s in
           case py_get e ''date'' JNull of
             Inl _ \<Rightarrow> None
           | Inr dv \<Rightarrow>
               if \<not> truthy dv \<or> new_status = [] then None
               else (case dv of
                       JStr ds \<Rightarrow>
                         (case parse_iso_to_msk fromisoformat MOSCOW_TZ ds of
                            Inl _ \<Rightarrow> None
                          | Inr dt \<Rightarrow> Some (dt, new_status))
                     | _ \<Rightarrow> None))
      | _ \<Rightarrow> None))))"

fun build_events ::
  "(string \<Rightarrow> string) \<Rightarrow> (string \<Rightarrow> error + datetime) \<Rightarrow> tzinfo \<Rightarrow> json list \<Rightarrow> (datetime \<times> string) list" where
  "build_events lower fromisoformat MOSCOW_TZ [] = []"
| "build_events lower fromisoformat MOSCOW_TZ (e # es) =
     (case event_of_entry lower fromisoformat MOSCOW_TZ e of
        None \<Rightarrow> build_events lower fromisoformat MOSCOW_TZ es
      | Some ev \<Rightarrow> ev # build_events lower fromisoformat MOSCOW_TZ es)"

section \<open>Status timeline accumulator\<close>

text \<open>The first loop: the state on reaching \<^verbatim>\<open>period_start\<close>.\<close>

fun initial_state :: "datetime \<Rightarrow> string \<Rightarrow> (datetime \<times> string) list \<Rightarrow> bool \<Rightarrow> bool" where
  "initial_state period_start target_status [] in_target_status = in_target_status"
| "initial_state period_start target_status ((dt, status) # es) in_target_status =
     (if instant dt \<le> instant period_start
      then initial_state period_start target_status es (status = target_status)
      else in_target_status)"

text \<open>The variables of the second loop.\<close>

record walk_state =
  in_target_status :: bool
  last_ts :: datetime
  total_td :: int

text \<open>\<^verbatim>\<open>total_td += add_working_time_segment(a, b)\<close>\<close>

definition add_segment :: "walk_state \<Rightarrow> datetime \<Rightarrow> datetime \<Rightarrow> error + walk_state" where
  "add_segment s a b =
     (case add_working_time_segment a b of
        Inl e \<Rightarrow> Inl e
      | Inr d \<Rightarrow> Inr (s\<lparr>total_td := total_td s + d\<rparr>))"

text \<open>The second loop.  The boolean of the result tells whether the loop was left by
  \<^verbatim>\<open>break\<close>, which decides whether its \<^verbatim>\<open>else\<close> clause runs.\<close>

fun walk_loop ::
  "datetime \<Rightarrow> datetime \<Rightarrow> string \<Rightarrow> (datetime \<times> string) list \<Rightarrow> walk_state
     \<Rightarrow> error + (bool \<times> walk_state)" where
  "walk_loop period_start period_end target_status [] s = Inr (False, s)"
| "walk_loop period_start period_end target_status ((dt, status) # es) s =
     (if instant dt \<le> instant period_start
      then walk_loop period_start period_end target_status es s
      else if instant dt > instant period_end then
        (if in_target_status s then
           (case add_segment s (last_ts s) period_end of
              Inl e \<Rightarrow> Inl e
            | Inr s' \<Rightarrow> Inr (True, s'))
         else Inr (True, s))
      else
        (case (if in_target_status s then add_segment s (last_ts s) dt else Inr s) of
           Inl e \<Rightarrow> Inl e
         | Inr s' \<Rightarrow>
             walk_loop period_start period_end target_status es
               (s'\<lparr>in_target_status := (status = target_status), last_ts := dt\<rparr>)))"

text \<open>The \<^verbatim>\<open>else\<close> clause of the second loop.\<close>

definition walk_else :: "datetime \<Rightarrow> walk_state \<Rightarrow> error + walk_state" where
  "walk_else period_end s =
     (if instant (last_ts s) < instant period_end \<and> in_target_status s
      then add_segment s (last_ts s) period_end else Inr s)"

text \<open>\<^verbatim>\<open>total_td.total_seconds() / 60\<close>; the float is modelled by the rational number
  it stands for.\<close>

definition minutes_of :: "int \<Rightarrow> rat" where
  "minutes_of td = of_int td / of_int MINUTE"

text \<open>
  \<^verbatim>\<open>datetime.strptime(s, "%Y-%m-%d").replace(tzinfo=MOSCOW_TZ, hour=0, minute=0,
  second=0, microsecond=0)\<close> and the same with 23:59:59, for a string parsed to
  ordinal \<open>d\<close>.
\<close>

definition period_start_of :: "tzinfo \<Rightarrow> int \<Rightarrow> datetime" where
  "period_start_of MOSCOW_TZ d = \<lparr>wall = d * DAY, utcoffset = zone_utcoffset MOSCOW_TZ\<rparr>"

definition period_end_of :: "tzinfo \<Rightarrow> int \<Rightarrow> datetime" where
  "period_end_of MOSCOW_TZ d =
     \<lparr>wall = d * DAY + 23 * HOUR + 59 * MINUTE + 59 * SEC,
      utcoffset = zone_utcoffset MOSCOW_TZ\<rparr>"

definition calculate_in_progress_time_for_period ::
  "(string \<Rightarrow> string) \<Rightarrow> (string \<Rightarrow> error + datetime) \<Rightarrow> tzinfo \<Rightarrow> json list \<Rightarrow> string \<Rightarrow> string \<Rightarrow> string
     \<Rightarrow> error + rat" where
  "calculate_in_progress_time_for_period lower fromisoformat MOSCOW_TZ history
       period_start_str period_end_str status_name =
     (let target_status = lower status_name in
      case strptime_ymd period_start_str of
        Inl e \<Rightarrow> Inl e
      | Inr d1 \<Rightarrow>
     (case strptime_ymd period_end_str of
        Inl e \<Rightarrow> Inl e
      | Inr d2 \<Rightarrow>
        (let period_start = period_start_of MOSCOW_TZ d1;
             period_end = period_end_of MOSCOW_TZ d2;
             events = build_events lower fromisoformat MOSCOW_TZ history
         in if events = [] then Inr 0
            else
              (let events = sort_key (\<lambda>x. instant (fst x)) events;
                   in_target_status = initial_state period_start target_status events False
               in case walk_loop period_start period_end target_status events
                         \<lparr>in_target_status = in_target_status, last_ts = period_start,
                          total_td = 0\<rparr> of
                    Inl e \<Rightarrow> Inl e
                  | Inr (broke, s) \<Rightarrow>
                      (case (if broke then Inr s else walk_else period_end s) of
                         Inl e \<Rightarrow> Inl e
                       | Inr s' \<Rightarrow> Inr (minutes_of (total_td s')))))))"

section \<open>Period and item aggregator\<close>

text \<open>
  A Python dict is an association list in insertion order with distinct keys:
  \<open>map_of\<close> looks a key up, and \<open>AList.update\<close> replaces the value of a key where it
  stands or adds a new key at the end.  A report row is the list
  \<^verbatim>\<open>[key, task_name, hours]\<close>; the types of the task key, the task name and the
  display name are whatever the items carry.  A float is modelled by the rational number
  it stands for; the operations on floats that round are parameters: Python's
  \<^verbatim>\<open>round(x, 1)\<close> is \<open>round1\<close>, and \<^verbatim>\<open>sum\<close> over a list of floats and ints is
  \<open>py_sum\<close> (float addition rounds, so the result depends on the order of the
  list).  Comparing a float with an int and dividing a float by 8 are exact.
\<close>

type_synonym ('k, 'n) report_row = "'k \<times> 'n \<times> rat"

type_synonym ('d, 'k, 'n) report_group =
  "((string \<times> string) \<times> ('d \<times> ('k, 'n) report_row list) list) list"

record period =
  p_start :: string
  p_end :: string

text \<open>\<^verbatim>\<open>{(p.start, p.end): defaultdict(list) for p in request.periods}\<close>\<close>

definition init_grouped :: "period list \<Rightarrow> ('d, 'k, 'n) report_group" where
  "init_grouped periods = fold (\<lambda>p g. AList.update (p_start p, p_end p) [] g) periods []"

text \<open>\<^verbatim>\<open>grouped_by_period[pk][display_name].append(row)\<close>, where the inner dict is a
  \<^verbatim>\<open>defaultdict(list)\<close>.\<close>

definition append_row ::
  "('d, 'k, 'n) report_group \<Rightarrow> string \<times> string \<Rightarrow> 'd \<Rightarrow> ('k, 'n) report_row
     \<Rightarrow> error + ('d, 'k, 'n) report_group" where
  "append_row grouped_by_period pk display_name row =
     (case map_of grouped_by_period pk of
        None \<Rightarrow> Inl KeyError
      | Some grouped_data \<Rightarrow>
          Inr (AList.update pk
                 (AList.update display_name
                    ((case map_of grouped_data display_name of None \<Rightarrow> [] | Some rows \<Rightarrow> rows)
                       @ [row])
                    grouped_data)
                 grouped_by_period))"

text \<open>
  The body of \<^verbatim>\<open>for period in request.periods\<close> in \<^verbatim>\<open>process_data\<close>.  In
  \<open>round1 (mins / 60)\<close> the parameter stands for the float division by 60 followed
  by \<^verbatim>\<open>round\<close>: both depend on the quotient alone.
\<close>

definition process_period ::
  "(string \<Rightarrow> string) \<Rightarrow> (string \<Rightarrow> error + datetime) \<Rightarrow> tzinfo \<Rightarrow> (rat \<Rightarrow> rat) \<Rightarrow> json list \<Rightarrow> string
     \<Rightarrow> 'k \<Rightarrow> 'n \<Rightarrow> 'd \<Rightarrow> ('d, 'k, 'n) report_group \<Rightarrow> period
     \<Rightarrow> error + ('d, 'k, 'n) report_group" where
  "process_period lower fromisoformat MOSCOW_TZ round1 filtered_history status_to_search
       key task_name display_name grouped_by_period period =
     (case calculate_in_progress_time_for_period lower fromisoformat MOSCOW_TZ filtered_history
             (p_start period) (p_end period) status_to_search of
        Inl e \<Rightarrow> Inl e
      | Inr mins \<Rightarrow>
          (let hours = round1 (mins / 60)
           in if hours > 0
              then append_row grouped_by_period (p_start period, p_end period) display_name
                     (key, task_name, hours)
              else Inr grouped_by_period))"

text \<open>The loop over the periods for one item; an exception of the body leaves it.\<close>

fun process_periods ::
  "(string \<Rightarrow> string) \<Rightarrow> (string \<Rightarrow> error + datetime) \<Rightarrow> tzinfo \<Rightarrow> (rat \<Rightarrow> rat) \<Rightarrow> json list \<Rightarrow> string
     \<Rightarrow> 'k \<Rightarrow> 'n \<Rightarrow> 'd \<Rightarrow> ('d, 'k, 'n) report_group \<Rightarrow> period list
     \<Rightarrow> error + ('d, 'k, 'n) report_group" where
  "process_periods lower fromisoformat MOSCOW_TZ round1 filtered_history status_to_search
       key task_name display_name grouped_by_period [] = Inr grouped_by_period"
| "process_periods lower fromisoformat MOSCOW_TZ round1 filtered_history status_to_search
       key task_name display_name grouped_by_period (period # periods) =
     (case process_period lower fromisoformat MOSCOW_TZ round1 filtered_history status_to_search
             key task_name display_name grouped_by_period period of
        Inl e \<Rightarrow> Inl e
      | Inr g \<Rightarrow>
          process_periods lower fromisoformat MOSCOW_TZ round1 filtered_history status_to_search
            key task_name display_name g periods)"

section \<open>Report builder\<close>

text \<open>
  The workbook is the sink of \<^verbatim>\<open>save_to_excel_multi\<close>: the model returns, for each
  sheet, its name and the calls made on it in order.
\<close>

datatype ('d, 'k, 'n) cell =
  Text string | DisplayName 'd | TaskKey 'k | TaskName 'n | Number rat | Count nat

datatype ('d, 'k, 'n) sheet_call =
  Write nat nat "('d, 'k, 'n) cell"
| Merge_range nat nat nat nat "('d, 'k, 'n) cell"

definition hours_of :: "('k, 'n) report_row \<Rightarrow> rat" where
  "hours_of task = snd (snd task)"

definition headers :: "string list" where
  "headers = [''Display Name'', ''Task Key'', ''Task Name'', ''In Progress Hours'',
              ''Days'', ''Tasks Count'']"

text \<open>\<^verbatim>\<open>for i, task in enumerate(tasks)\<close>, with the running \<^verbatim>\<open>row\<close>.\<close>

fun write_tasks ::
  "nat \<Rightarrow> nat \<Rightarrow> ('k, 'n) report_row list \<Rightarrow> rat list \<Rightarrow> ('d, 'k, 'n) sheet_call list" where
  "write_tasks row i [] display_hours_list = []"
| "write_tasks row i ((task_key, task_name, hours) # tasks) display_hours_list =
     [Write row 1 (TaskKey task_key), Write row 2 (TaskName task_name),
      Write row 3 (Number (display_hours_list ! i))]
     @ write_tasks (row + 1) (i + 1) tasks display_hours_list"

text \<open>\<^verbatim>\<open>for display_name, tasks in grouped_data.items()\<close>, from row \<open>row\<close> on.\<close>

fun write_groups ::
  "(rat \<Rightarrow> rat) \<Rightarrow> (rat list \<Rightarrow> rat) \<Rightarrow> nat
     \<Rightarrow> ('d \<times> ('k :: linorder, 'n) report_row list) list
     \<Rightarrow> ('d, 'k, 'n) sheet_call list" where
  "write_groups round1 py_sum row [] = []"
| "write_groups round1 py_sum row ((display_name, tasks) # rest) =
     (let tasks = filter (\<lambda>t. hours_of t > 0) tasks in
      if tasks = [] then write_groups round1 py_sum row rest
      else
        (let tasks = sort_key fst tasks;
             display_hours_list =
               map (\<lambda>task. if hours_of task \<ge> 1 then hours_of task else 1) tasks;
             total_hours = py_sum display_hours_list;
             total_days = round1 (total_hours / 8);
             tasks_count = length tasks
         in (if length tasks > 1 then
               [Merge_range row 0 (row + length tasks - 1) 0 (DisplayName display_name),
                Merge_range row 4 (row + length tasks - 1) 4 (Number total_days),
                Merge_range row 5 (row + length tasks - 1) 5 (Count tasks_count)]
             else
               [Write row 0 (DisplayName display_name),
                Write row 4 (Number total_days),
                Write row 5 (Count tasks_count)])
            @ write_tasks row 0 tasks display_hours_list
            @ write_groups round1 py_sum (row + length tasks) rest))"

definition save_to_excel_multi ::
  "(rat \<Rightarrow> rat) \<Rightarrow> (rat list \<Rightarrow> rat) \<Rightarrow> ('d, 'k :: linorder, 'n) report_group
     \<Rightarrow> (string \<times> ('d, 'k, 'n) sheet_call list) list" where
  "save_to_excel_multi round1 py_sum grouped_by_period =
     map (\<lambda>((start_str, end_str), grouped_data).
            (let sheet_name = start_str @ ''_'' @ end_str;
                 sheet_name = (if length sheet_name > 31 then take 31 sheet_name
                               else sheet_name)
             in (sheet_name,
                 map (\<lambda>(col_num, header). Write 0 col_num (Text header))
                     (enumerate 0 headers)
                 @ write_groups round1 py_sum 1 grouped_data)))
         grouped_by_period"

section \<open>Concrete data for the examples\<close>

text \<open>
  pytz's Europe/Moscow zone as the examples need it.  The zone object returned by
  \<^verbatim>\<open>timezone("Europe/Moscow")\<close> carries the first entry of the zone's table, local
  mean time (02:30:17, which pytz rounds to whole minutes, 02:30); the offset in force
  since 26 October 2014 is 03:00.
\<close>

definition pytz_moscow :: tzinfo where
  "pytz_moscow = \<lparr>zone_utcoffset = 9000 * SEC, utcoffset_at = (\<lambda>t. 3 * HOUR)\<rparr>"

text \<open>The part of \<^verbatim>\<open>datetime.fromisoformat\<close> that reads strings of the form
  \<^verbatim>\<open>YYYY-MM-DDTHH:MM:SS+00:00\<close>; every other string is refused here.\<close>

definition two_digits :: "char \<Rightarrow> char \<Rightarrow> int option" where
  "two_digits a b =
     (case (digit_of a, digit_of b) of (Some x, Some y) \<Rightarrow> Some (10 * x + y) | _ \<Rightarrow> None)"

definition fromisoformat_utc :: "string \<Rightarrow> error + datetime" where
  "fromisoformat_utc s =
     (if length s = 25 \<and> drop 19 s = ''+00:00'' \<and> s ! 10 = CHR ''T''
         \<and> s ! 13 = CHR '':'' \<and> s ! 16 = CHR '':'' then
        (case (strptime_ymd (take 10 s), two_digits (s ! 11) (s ! 12),
               two_digits (s ! 14) (s ! 15), two_digits (s ! 17) (s ! 18)) of
           (Inr d, Some h, Some m, Some sec) \<Rightarrow>
             (if h < 24 \<and> m < 60 \<and> sec < 60
              then Inr \<lparr>wall = d * DAY + h * HOUR + m * MINUTE + sec * SEC, utcoffset = 0\<rparr>
              else Inl ValueError)
         | _ \<Rightarrow> Inl ValueError)
      else Inl ValueError)"

text \<open>\<^verbatim>\<open>str.lower()\<close> as it acts on strings of ASCII characters.\<close>

definition lower_char :: "char \<Rightarrow> char" where
  "lower_char c =
     (let n = (of_char c :: nat) in if 65 \<le> n \<and> n \<le> 90 then char_of (n + 32) else c)"

definition ascii_lower :: "string \<Rightarrow> string" where
  "ascii_lower s = map lower_char s"

text \<open>Rounding to one decimal place, ties to the even digit, on exact values.\<close>

definition round_half_even1 :: "rat \<Rightarrow> rat" where
  "round_half_even1 x =
     (let s = x * 10; f = \<lfloor>s\<rfloor>; r = s - of_int f
      in of_int (if r < 1 / 2 then f
                 else if r > 1 / 2 then f + 1
                 else if even f then f else f + 1) / 10)"

text \<open>The value \<^verbatim>\<open>astimezone\<close> gives for a Moscow wall clock since 2014: ordinal day,
  hour and minute at offset 03:00.\<close>

definition moscow_time :: "int \<Rightarrow> int \<Rightarrow> int \<Rightarrow> datetime" where
  "moscow_time d h m = \<lparr>wall = d * DAY + h * HOUR + m * MINUTE, utcoffset = 3 * HOUR\<rparr>"

text \<open>A history record as \<^verbatim>\<open>process_data\<close> hands it on.\<close>

definition status_entry :: "string \<Rightarrow> string \<Rightarrow> json" where
  "status_entry d st =
     JObj [(''date'', JStr d), (''type'', JStr ''StatusUpdated''),
           (''data'', JObj [(''newValue'', JObj [(''statusName'', JStr st)])])]"

section \<open>Properties of the accumulator\<close>

lemmas example_defs = moscow_time_def pytz_moscow_def period_start_of_def period_end_of_def
  instant_def date_of_def DAY_def HOUR_def MINUTE_def SEC_def

lemma strptime_2024_01_12: "strptime_ymd ''2024-01-12'' = Inr 738897"
  by code_simp

lemma strptime_2024_01_15: "strptime_ymd ''2024-01-15'' = Inr 738900"
  by code_simp

lemma add_working_time_segment_guard:
  "instant end_dt \<le> instant start_dt \<Longrightarrow> add_working_time_segment start_dt end_dt = Inr 0"
  by (simp add: add_working_time_segment_def)

lemma add_segment_guard:
  "instant b \<le> instant a \<Longrightarrow> add_segment s a b = Inr s"
  by (simp add: add_segment_def add_working_time_segment_guard)

lemma walk_loop_inverted:
  "instant period_end \<le> instant period_start \<Longrightarrow> last_ts s = period_start \<Longrightarrow>
   walk_loop period_start period_end target_status es s = Inr (False, s) \<or>
   walk_loop period_start period_end target_status es s = Inr (True, s)"
proof (induction es)
  case Nil
  then show ?case by simp
next
  case (Cons e es)
  obtain dt status where e: "e = (dt, status)" by (cases e)
  show ?case
  proof (cases "instant dt \<le> instant period_start")
    case True
    with Cons e show ?thesis by simp
  next
    case False
    with Cons.prems have "instant dt > instant period_end" by simp
    with False Cons.prems e show ?thesis by (simp add: add_segment_guard)
  qed
qed

lemma walk_else_inverted:
  "instant period_end \<le> instant (last_ts s) \<Longrightarrow> walk_else period_end s = Inr s"
  by (simp add: walk_else_def)

lemma period_inverted:
  "d2 < d1 \<Longrightarrow> instant (period_end_of tz d2) \<le> instant (period_start_of tz d1)"
  by (simp add: period_end_of_def period_start_of_def instant_def DAY_def HOUR_def
      MINUTE_def SEC_def)

text \<open>
  Claim C5.  Whatever the period (two strings that parse as dates) and whatever the
  target status, the accumulator returns 0 minutes when no valid event could be built
  from the history.  The function has no other input from which a status could come.
\<close>

theorem empty_timeline_zero:
  "strptime_ymd period_start_str = Inr d1 \<Longrightarrow> strptime_ymd period_end_str = Inr d2 \<Longrightarrow>
   build_events lower fromisoformat MOSCOW_TZ history = [] \<Longrightarrow>
   calculate_in_progress_time_for_period lower fromisoformat MOSCOW_TZ history
       period_start_str period_end_str status_name = Inr 0"
  by (simp add: calculate_in_progress_time_for_period_def)

theorem empty_timeline_zero_witness:
  "strptime_ymd ''2024-01-12'' = Inr 738897 \<and> strptime_ymd ''2024-01-15'' = Inr 738900
   \<and> build_events ascii_lower fromisoformat_utc pytz_moscow
        [status_entry ''yesterday'' ''In Progress'', JObj [(''date'', JNull)], JNull] = []
   \<and> calculate_in_progress_time_for_period ascii_lower fromisoformat_utc pytz_moscow
        [status_entry ''yesterday'' ''In Progress'', JObj [(''date'', JNull)], JNull]
        ''2024-01-12'' ''2024-01-15'' ''In Progress'' = Inr 0"
proof -
  have b: "build_events ascii_lower fromisoformat_utc pytz_moscow
        [status_entry ''yesterday'' ''In Progress'', JObj [(''date'', JNull)], JNull] = []"
    by code_simp
  show ?thesis
    using empty_timeline_zero [OF strptime_2024_01_12 strptime_2024_01_15 b]
      strptime_2024_01_12 strptime_2024_01_15 b
    by simp
qed

text \<open>
  Claim C6.  When the end date of the period lies before its start date, the
  accumulator raises nothing and returns zero, for every history and target status;
  and the overlap function returns zero whenever its end instant is at or before its
  start instant.
\<close>

theorem inverted_period_zero:
  "(strptime_ymd period_start_str = Inr d1 \<and> strptime_ymd period_end_str = Inr d2 \<and> d2 < d1
      \<longrightarrow> calculate_in_progress_time_for_period lower fromisoformat MOSCOW_TZ history
            period_start_str period_end_str status_name = Inr 0)
   \<and> (instant end_dt \<le> instant start_dt
      \<longrightarrow> add_working_time_segment start_dt end_dt = Inr 0)"
proof (intro conjI impI)
  assume h: "strptime_ymd period_start_str = Inr d1 \<and> strptime_ymd period_end_str = Inr d2
    \<and> d2 < d1"
  let ?ps = "period_start_of MOSCOW_TZ d1" and ?pe = "period_end_of MOSCOW_TZ d2"
  let ?t = "lower status_name"
  let ?evs = "sort_key (\<lambda>x. instant (fst x)) (build_events lower fromisoformat MOSCOW_TZ history)"
  let ?s0 = "\<lparr>in_target_status = initial_state ?ps ?t ?evs False, last_ts = ?ps,
    total_td = 0\<rparr>"
  from h have inv: "instant ?pe \<le> instant ?ps" by (simp add: period_inverted)
  have "walk_loop ?ps ?pe ?t ?evs ?s0 = Inr (False, ?s0)
      \<or> walk_loop ?ps ?pe ?t ?evs ?s0 = Inr (True, ?s0)"
    by (rule walk_loop_inverted [OF inv]) simp
  moreover have "walk_else ?pe ?s0 = Inr ?s0"
    using inv by (simp add: walk_else_inverted)
  ultimately show "calculate_in_progress_time_for_period lower fromisoformat MOSCOW_TZ history
            period_start_str period_end_str status_name = Inr 0"
    using h by (auto simp: calculate_in_progress_time_for_period_def Let_def minutes_of_def)
next
  assume "instant end_dt \<le> instant start_dt"
  then show "add_working_time_segment start_dt end_dt = Inr 0"
    by (rule add_working_time_segment_guard)
qed

theorem inverted_period_zero_witness:
  "strptime_ymd ''2024-01-15'' = Inr 738900 \<and> strptime_ymd ''2024-01-12'' = Inr 738897
   \<and> (738897 :: int) < 738900
   \<and> calculate_in_progress_time_for_period ascii_lower fromisoformat_utc pytz_moscow
        [status_entry ''2024-01-12T13:00:00Z'' ''In Progress'']
        ''2024-01-15'' ''2024-01-12'' ''in progress'' = Inr 0
   \<and> instant \<lparr>wall = 738900 * DAY, utcoffset = 0\<rparr>
        \<le> instant \<lparr>wall = 738900 * DAY + 9 * HOUR, utcoffset = 0\<rparr>
   \<and> add_working_time_segment \<lparr>wall = 738900 * DAY + 9 * HOUR, utcoffset = 0\<rparr>
        \<lparr>wall = 738900 * DAY, utcoffset = 0\<rparr> = Inr 0"
  using inverted_period_zero [of "''2024-01-15''" 738900 "''2024-01-12''" 738897
      ascii_lower fromisoformat_utc pytz_moscow "[status_entry ''2024-01-12T13:00:00Z'' ''In Progress'']"
      "''in progress''" "\<lparr>wall = 738900 * DAY, utcoffset = 0\<rparr>"
      "\<lparr>wall = 738900 * DAY + 9 * HOUR, utcoffset = 0\<rparr>"]
    strptime_2024_01_12 strptime_2024_01_15
  by (simp add: instant_def HOUR_def)

subsection \<open>The range of parsed dates\<close>

lemma digit_of_range: "digit_of c = Some a \<Longrightarrow> 0 \<le> a \<and> a \<le> 9"
  by (auto simp: digit_of_def Let_def split: if_splits)

lemma days_before_year_bound: "1 \<le> y \<Longrightarrow> y \<le> 9998 \<Longrightarrow> 0 \<le> days_before_year y \<and> days_before_year y \<le> 3651428"
proof -
  assume a: "1 \<le> y" "y \<le> 9998"
  define n where "n = y - 1"
  have n: "0 \<le> n" "n \<le> 9997" using a by (simp_all add: n_def)
  have "n div 4 \<le> 9997 div 4" using n by (intro zdiv_mono1) simp_all
  moreover have "n div 400 \<le> 9997 div 400" using n by (intro zdiv_mono1) simp_all
  moreover have "0 \<le> n div 4" "0 \<le> n div 400" "0 \<le> n div 100" using n by simp_all
  moreover have "n div 100 \<le> n div 4" using n by (intro zdiv_mono2) simp_all
  ultimately show ?thesis using n unfolding days_before_year_def n_def [symmetric] by simp
qed

lemma days_before_year_9999: "days_before_year 9999 = 3651694"
  by (simp add: days_before_year_def)

lemma month_cases: "1 \<le> m \<Longrightarrow> m \<le> 12 \<Longrightarrow>
  m = 1 \<or> m = 2 \<or> m = 3 \<or> m = 4 \<or> m = 5 \<or> m = 6 \<or> m = 7 \<or> m = 8 \<or> m = 9 \<or> m = 10 \<or> m = 11 \<or> m = (12::int)"
  by arith

lemma parse_year_range: "parse_year s = Some y \<Longrightarrow> 0 \<le> y \<and> y \<le> 9999"
proof -
  assume a: "parse_year s = Some y"
  then obtain a b c d where m: "map digit_of s = [Some a, Some b, Some c, Some d]"
    and y: "y = 1000 * a + 100 * b + 10 * c + d"
    by (auto simp: parse_year_def split: list.splits option.splits)
  from m obtain c1 c2 c3 c4 where "s = [c1, c2, c3, c4]" by auto
  with m have "digit_of c1 = Some a" "digit_of c2 = Some b" "digit_of c3 = Some c" "digit_of c4 = Some d"
    by auto
  then have "0 \<le> a \<and> a \<le> 9" "0 \<le> b \<and> b \<le> 9" "0 \<le> c \<and> c \<le> 9" "0 \<le> d \<and> d \<le> 9"
    by (auto dest: digit_of_range)
  with y show ?thesis by arith
qed

lemma parse_month_range: "parse_month s = Some m \<Longrightarrow> 1 \<le> m \<and> m \<le> 12"
proof -
  assume a: "parse_month s = Some m"
  show ?thesis
  proof (cases s)
    case Nil
    with a show ?thesis by (simp add: parse_month_def)
  next
    case (Cons c1 r1)
    show ?thesis
    proof (cases r1)
      case Nil
      with a Cons show ?thesis
        by (auto simp: parse_month_def split: option.splits if_splits dest: digit_of_range)
    next
      case (Cons c2 r2)
      note c2 = this
      show ?thesis
      proof (cases r2)
        case Nil
        with a \<open>s = c1 # r1\<close> c2 show ?thesis
          by (auto simp: parse_month_def split: option.splits if_splits dest: digit_of_range)
      next
        case (Cons c3 r3)
        with a \<open>s = c1 # r1\<close> c2 show ?thesis
          by (auto simp: parse_month_def split: option.splits list.splits)
      qed
    qed
  qed
qed

lemma parse_day_range: "parse_day s = Some d \<Longrightarrow> 1 \<le> d"
proof -
  assume a: "parse_day s = Some d"
  show ?thesis
  proof (cases s)
    case Nil
    with a show ?thesis by (simp add: parse_day_def)
  next
    case (Cons x r1)
    show ?thesis
    proof (cases r1)
      case Nil
      with a Cons show ?thesis
        by (auto simp: parse_day_def split: option.splits if_splits)
    next
      case (Cons y r2)
      note c2 = this
      show ?thesis
      proof (cases r2)
        case Nil
        with a \<open>s = x # r1\<close> c2 show ?thesis
          by (auto simp: parse_day_def split: option.splits if_splits dest: digit_of_range)
      next
        case (Cons c3 r3)
        with a \<open>s = x # r1\<close> c2 show ?thesis
          by (simp add: parse_day_def)
      qed
    qed
  qed
qed

lemma day_of_year_bound:
  assumes "1 \<le> m" "m \<le> 12" "d \<le> days_in_month y m"
  shows "days_before_month y m + d \<le> 365 + (if is_leap y then 1 else 0)"
proof -
  consider "m = 1" | "m = 2" | "m = 3" | "m = 4" | "m = 5" | "m = 6" | "m = 7" | "m = 8"
    | "m = 9" | "m = 10" | "m = 11" | "m = 12"
    using month_cases [OF assms(1,2)] by blast
  then show ?thesis
    using assms(3)
    by cases (simp_all add: days_before_month_def days_in_month_def split: if_splits)
qed

lemma days_before_month_nonneg:
  assumes "1 \<le> m" "m \<le> 12"
  shows "0 \<le> days_before_month y m"
proof -
  consider "m = 1" | "m = 2" | "m = 3" | "m = 4" | "m = 5" | "m = 6" | "m = 7" | "m = 8"
    | "m = 9" | "m = 10" | "m = 11" | "m = 12"
    using month_cases [OF assms(1,2)] by blast
  then show ?thesis
    by cases (simp_all add: days_before_month_def)
qed

lemma ymd2ord_range:
  assumes "1 \<le> y" "y \<le> 9999" "1 \<le> m" "m \<le> 12" "1 \<le> d" "d \<le> days_in_month y m"
  shows "1 \<le> ymd2ord y m d \<and> ymd2ord y m d \<le> MAXORD"
proof (cases "y = 9999")
  case True
  then have "\<not> is_leap y" by (simp add: is_leap_def)
  with day_of_year_bound [OF assms(3,4,6)] have "days_before_month y m + d \<le> 365" by simp
  with True days_before_month_nonneg [OF assms(3,4), of y] assms(5) show ?thesis
    by (simp add: ymd2ord_def days_before_year_9999 MAXORD_def)
next
  case False
  with assms have "y \<le> 9998" by simp
  from days_before_year_bound [OF assms(1) this] day_of_year_bound [OF assms(3,4,6)]
    days_before_month_nonneg [OF assms(3,4), of y] assms(5)
  show ?thesis by (auto simp: ymd2ord_def MAXORD_def split: if_splits)
qed

lemma strptime_ymd_fields:
  assumes "strptime_ymd s = Inr d"
  shows "\<exists>ys ms ds y m dd. parse_year ys = Some y \<and> parse_month ms = Some m
     \<and> parse_day ds = Some dd \<and> 1 \<le> y \<and> dd \<le> days_in_month y m \<and> d = ymd2ord y m dd"
proof -
  obtain ys ms ds where sp: "split_on CHR ''-'' s = [ys, ms, ds]"
    using assms by (simp add: strptime_ymd_def split: list.splits)
  from assms sp have r: "(case (parse_year ys, parse_month ms, parse_day ds) of
             (Some y, Some m, Some d) \<Rightarrow>
               (if 1 \<le> y \<and> d \<le> days_in_month y m then Inr (ymd2ord y m d)
                else Inl ValueError)
           | _ \<Rightarrow> Inl ValueError) = Inr d"
    by (simp add: strptime_ymd_def)
  obtain y where y: "parse_year ys = Some y" using r by (cases "parse_year ys") auto
  obtain m where m: "parse_month ms = Some m" using r y by (cases "parse_month ms") auto
  obtain dd where dd: "parse_day ds = Some dd" using r y m by (cases "parse_day ds") auto
  from r y m dd have "1 \<le> y \<and> dd \<le> days_in_month y m \<and> d = ymd2ord y m dd"
    by (simp split: if_splits)
  with y m dd show ?thesis by blast
qed

lemma strptime_ymd_range: "strptime_ymd s = Inr d \<Longrightarrow> 1 \<le> d \<and> d \<le> MAXORD"
proof -
  assume "strptime_ymd s = Inr d"
  from strptime_ymd_fields [OF this] obtain ys ms ds y m dd where
    f: "parse_year ys = Some y" "parse_month ms = Some m" "parse_day ds = Some dd"
    "1 \<le> y" "dd \<le> days_in_month y m" "d = ymd2ord y m dd"
    by blast
  from parse_year_range [OF f(1)] parse_month_range [OF f(2)] parse_day_range [OF f(3)] f(4,5)
  have "1 \<le> ymd2ord y m dd \<and> ymd2ord y m dd \<le> MAXORD"
    by (intro ymd2ord_range) simp_all
  with f(6) show ?thesis by simp
qed

subsection \<open>The state at the start of the period\<close>

lemma initial_state_takeWhile:
  "initial_state ps t es b =
     (let tw = takeWhile (\<lambda>e. instant (fst e) \<le> instant ps) es
      in if tw = [] then b else snd (last tw) = t)"
proof (induction es arbitrary: b)
  case Nil
  show ?case by simp
next
  case (Cons e es)
  obtain dt status where e: "e = (dt, status)" by (cases e)
  show ?case using Cons [of "status = t"] e by (simp add: Let_def)
qed

lemma takeWhile_filter_sorted:
  fixes f :: "'a \<Rightarrow> int"
  shows "sorted (map f es) \<Longrightarrow> takeWhile (\<lambda>e. f e \<le> c) es = filter (\<lambda>e. f e \<le> c) es"
proof (induction es)
  case Nil
  show ?case by simp
next
  case (Cons e es)
  show ?case
  proof (cases "f e \<le> c")
    case True
    with Cons show ?thesis by simp
  next
    case False
    with Cons.prems have "\<forall>x\<in>set es. \<not> f x \<le> c" by fastforce
    then have "filter (\<lambda>e. f e \<le> c) es = []" by (simp add: filter_empty_conv)
    with False show ?thesis by simp
  qed
qed

lemma initial_state_sorted:
  assumes "sorted (map (\<lambda>e. instant (fst e)) events)"
  shows "initial_state ps t events False =
     (filter (\<lambda>e. instant (fst e) \<le> instant ps) events \<noteq> []
      \<and> snd (last (filter (\<lambda>e. instant (fst e) \<le> instant ps) events)) = t)"
  using takeWhile_filter_sorted [OF assms, of "instant ps"]
  by (auto simp: initial_state_takeWhile Let_def)

lemma last_filter_greatest:
  fixes f :: "'a \<Rightarrow> int"
  assumes "sorted (map f es)" and "filter P es \<noteq> []" and "e \<in> set es" and "P e"
  shows "f e \<le> f (last (filter P es))"
proof -
  have s: "sorted (map f (filter P es))" using assms(1) by (simp add: sorted_filter)
  have "e \<in> set (filter P es)" using assms by simp
  then obtain i where i: "i < length (filter P es)" "filter P es ! i = e"
    by (metis in_set_conv_nth)
  have "map f (filter P es) ! i \<le> map f (filter P es) ! (length (filter P es) - 1)"
    using s i(1) by (intro sorted_nth_mono) auto
  then show ?thesis using i assms(2) by (simp add: last_conv_nth)
qed

text \<open>
  Claim C3.  On a list of events sorted by timestamp, the state on reaching the start
  of the period is that of the most recent event at or before the start: the last
  event of the list among those at or before it, which no other such event exceeds in
  time.  When there is no such event the state is "not in the target status".
\<close>

theorem initial_state_most_recent:
  assumes "sorted (map (\<lambda>e. instant (fst e)) events)"
    and "before = filter (\<lambda>e. instant (fst e) \<le> instant period_start) events"
  shows "(before = [] \<longrightarrow> \<not> initial_state period_start target_status events False)
     \<and> (before \<noteq> [] \<longrightarrow>
          initial_state period_start target_status events False
            = (snd (last before) = target_status)
          \<and> last before \<in> set events
          \<and> instant (fst (last before)) \<le> instant period_start
          \<and> (\<forall>e\<in>set events. instant (fst e) \<le> instant period_start
                \<longrightarrow> instant (fst e) \<le> instant (fst (last before))))"
proof -
  have tw: "takeWhile (\<lambda>e. instant (fst e) \<le> instant period_start) events = before"
    using assms by (simp add: takeWhile_filter_sorted)
  have a: "before = [] \<Longrightarrow> \<not> initial_state period_start target_status events False"
    using tw by (simp add: initial_state_takeWhile)
  have b: "before \<noteq> [] \<Longrightarrow> initial_state period_start target_status events False
            = (snd (last before) = target_status)"
    using tw by (simp add: initial_state_takeWhile)
  have c: "before \<noteq> [] \<Longrightarrow> last before \<in> set before" by simp
  have d: "\<And>e. before \<noteq> [] \<Longrightarrow> e \<in> set events \<Longrightarrow> instant (fst e) \<le> instant period_start
     \<Longrightarrow> instant (fst e) \<le> instant (fst (last before))"
    using last_filter_greatest [OF assms(1), of "\<lambda>e. instant (fst e) \<le> instant period_start"]
      assms(2) by simp
  show ?thesis using a b c d assms(2) by auto
qed

theorem initial_state_most_recent_witness:
  "sorted (map (\<lambda>e. instant (fst e))
      [(moscow_time 738897 9 0, ''todo''), (moscow_time 738897 16 0, ''in progress''),
       (moscow_time 738900 8 15, ''done'')])
   \<and> [(moscow_time 738897 9 0, ''todo''), (moscow_time 738897 16 0, ''in progress'')]
       = filter (\<lambda>e. instant (fst e) \<le> instant (period_start_of pytz_moscow 738900))
          [(moscow_time 738897 9 0, ''todo''), (moscow_time 738897 16 0, ''in progress''),
           (moscow_time 738900 8 15, ''done'')]
   \<and> initial_state (period_start_of pytz_moscow 738900) ''in progress''
        [(moscow_time 738897 9 0, ''todo''), (moscow_time 738897 16 0, ''in progress''),
         (moscow_time 738900 8 15, ''done'')] False"
proof -
  have h1: "sorted (map (\<lambda>e. instant (fst e))
      [(moscow_time 738897 9 0, ''todo''), (moscow_time 738897 16 0, ''in progress''),
       (moscow_time 738900 8 15, ''done'')])"
    by code_simp
  have h2: "[(moscow_time 738897 9 0, ''todo''), (moscow_time 738897 16 0, ''in progress'')]
       = filter (\<lambda>e. instant (fst e) \<le> instant (period_start_of pytz_moscow 738900))
          [(moscow_time 738897 9 0, ''todo''), (moscow_time 738897 16 0, ''in progress''),
           (moscow_time 738900 8 15, ''done'')]"
    by code_simp
  have c: "initial_state (period_start_of pytz_moscow 738900) ''in progress''
        [(moscow_time 738897 9 0, ''todo''), (moscow_time 738897 16 0, ''in progress''),
         (moscow_time 738900 8 15, ''done'')] False"
    using initial_state_most_recent [OF h1 h2, of "''in progress''"] by (simp add: example_defs)
  show ?thesis by (intro conjI h1 h2 c)
qed

subsection \<open>The walk over the events\<close>

lemma walk_loop_outside:
  assumes "\<forall>e\<in>set es. instant (fst e) \<le> instant ps \<or> instant pe < instant (fst e)"
  shows "walk_loop ps pe t es s =
     (if \<forall>e\<in>set es. instant (fst e) \<le> instant ps then Inr (False, s)
      else if in_target_status s then
        (case add_segment s (last_ts s) pe of Inl e \<Rightarrow> Inl e | Inr s' \<Rightarrow> Inr (True, s'))
      else Inr (True, s))"
  using assms
proof (induction es)
  case Nil
  show ?case by simp
next
  case (Cons e es)
  obtain dt status where e: "e = (dt, status)" by (cases e)
  show ?case
  proof (cases "instant dt \<le> instant ps")
    case True
    with Cons e show ?thesis by simp
  next
    case False
    with Cons.prems e have "instant pe < instant dt" by simp
    with False e show ?thesis by simp
  qed
qed

lemma date_of_period_start: "date_of (period_start_of tz d) = d"
  by (simp add: period_start_of_def date_of_def DAY_def)

lemma date_of_period_end: "date_of (period_end_of tz d) = d"
proof -
  have "(d * DAY + (23 * HOUR + 59 * MINUTE + 59 * SEC)) div DAY = d"
    by (simp add: DAY_def HOUR_def MINUTE_def SEC_def)
  then show ?thesis by (simp add: period_end_of_def date_of_def add.assoc)
qed

lemma wall_below_next_day: "wall cur < (date_of cur + 1) * DAY"
  unfolding date_of_def DAY_def by (simp add: algebra_simps)

lemma next_day_start_in_range:
  assumes "date_of cur < MAXORD"
  shows "\<exists>cur'. next_day_start cur = Inr cur'"
proof -
  from wall_below_next_day [of cur] assms have "wall cur + DAY \<le> MAX_WALL"
    unfolding MAX_WALL_def DAY_def by (simp add: algebra_simps)
  then show ?thesis by (simp add: next_day_start_def add_one_day_def)
qed

lemma aws_body_in_range:
  assumes "date_of cur < MAXORD"
  shows "\<exists>cur' tot'. aws_body end_dt cur tot = Inr (cur', tot')"
  using next_day_start_in_range [OF assms]
  by (auto simp: aws_body_def Let_def)

lemma aws_loop_in_range:
  "date_of end_dt < MAXORD \<Longrightarrow> \<exists>r. aws_loop end_dt cur tot = Inr r"
proof (induction end_dt cur tot rule: aws_loop.induct)
  case (1 end_dt cur tot)
  show ?case
  proof (cases "date_of cur \<le> date_of end_dt")
    case False
    then show ?thesis by (simp add: aws_loop.simps [of end_dt cur tot])
  next
    case True
    with "1.prems" have "date_of cur < MAXORD" by simp
    from aws_body_in_range [OF this, of end_dt tot]
    obtain cur' tot' where b: "aws_body end_dt cur tot = Inr (cur', tot')" by blast
    from "1.IH" [OF True b refl "1.prems"] obtain r where "aws_loop end_dt cur' tot' = Inr r"
      by blast
    with True b show ?thesis by (simp add: aws_loop.simps [of end_dt cur tot])
  qed
qed

lemma next_day_start_overflow:
  "next_day_start cur = Inl e \<Longrightarrow> e = OverflowError"
  by (auto simp: next_day_start_def add_one_day_def split: if_splits)

lemma next_day_start_stays:
  assumes "next_day_start cur = Inr cur'"
  shows "date_of cur' \<le> MAXORD"
proof -
  from assms have w: "wall cur + DAY \<le> MAX_WALL"
    by (auto simp: next_day_start_def add_one_day_def split: if_splits)
  have "date_of cur' = date_of cur + 1" using assms by (rule next_day_start_date)
  moreover have "date_of cur * DAY \<le> wall cur"
    unfolding date_of_def DAY_def by simp
  ultimately show ?thesis using w unfolding MAX_WALL_def DAY_def by simp
qed

lemma aws_body_cases:
  "(\<exists>cur' tot'. aws_body end_dt cur tot = Inr (cur', tot') \<and> next_day_start cur = Inr cur')
   \<or> (aws_body end_dt cur tot = Inl OverflowError)"
proof (cases "next_day_start cur")
  case (Inl e)
  with next_day_start_overflow [OF Inl] show ?thesis by (simp add: aws_body_def Let_def)
next
  case (Inr c)
  then show ?thesis by (simp add: aws_body_def Let_def)
qed

lemma aws_loop_last_day:
  "date_of end_dt = MAXORD \<Longrightarrow> date_of cur \<le> date_of end_dt \<Longrightarrow>
   aws_loop end_dt cur tot = Inl OverflowError"
proof (induction end_dt cur tot rule: aws_loop.induct)
  case (1 end_dt cur tot)
  from aws_body_cases [of end_dt cur tot] show ?case
  proof
    assume "\<exists>cur' tot'. aws_body end_dt cur tot = Inr (cur', tot') \<and> next_day_start cur = Inr cur'"
    then obtain cur' tot' where b: "aws_body end_dt cur tot = Inr (cur', tot')"
      and n: "next_day_start cur = Inr cur'" by blast
    from next_day_start_stays [OF n] "1.prems" have "date_of cur' \<le> date_of end_dt" by simp
    from "1.IH" [OF "1.prems"(2) b refl "1.prems"(1) this]
    have "aws_loop end_dt cur' tot' = Inl OverflowError" .
    with "1.prems" b show ?thesis by (simp add: aws_loop.simps [of end_dt cur tot])
  next
    assume "aws_body end_dt cur tot = Inl OverflowError"
    with "1.prems" show ?thesis by (simp add: aws_loop.simps [of end_dt cur tot])
  qed
qed

lemma whole_window_returns:
  "d2 < MAXORD \<Longrightarrow>
   \<exists>d. add_working_time_segment (period_start_of tz d1) (period_end_of tz d2) = Inr d"
  using aws_loop_in_range [of "period_end_of tz d2" "period_start_of tz d1" 0]
  by (auto simp: add_working_time_segment_def date_of_period_end)

lemma whole_window_raises:
  assumes "d2 = MAXORD" and "d1 \<le> d2"
  shows "add_working_time_segment (period_start_of tz d1) (period_end_of tz d2)
         = Inl OverflowError"
proof -
  have "instant (period_start_of tz d1) < instant (period_end_of tz d2)"
    using assms(2)
    by (simp add: period_start_of_def period_end_of_def instant_def DAY_def HOUR_def
        MINUTE_def SEC_def)
  moreover have "aws_loop (period_end_of tz d2) (period_start_of tz d1) 0 = Inl OverflowError"
    using assms
    by (intro aws_loop_last_day) (simp_all add: date_of_period_end date_of_period_start)
  ultimately show ?thesis by (simp add: add_working_time_segment_def)
qed

text \<open>
  Claim C1, amended.  The most recent event at or before the start of the period
  carries the target status (both sides folded by \<^verbatim>\<open>str.lower()\<close>), and no event lies
  after the start and at or before the end of the period.  Then the accumulator does
  what the overlap function does on the whole window.  When the end date is before
  9999-12-31 the overlap function returns, and the accumulator returns exactly that
  duration in minutes.  When the end date is 9999-12-31 the day loop steps past the
  last date a \<^verbatim>\<open>datetime\<close> can hold, and the accumulator raises OverflowError.
\<close>

theorem in_target_whole_window:
  assumes p1: "strptime_ymd period_start_str = Inr d1"
    and p2: "strptime_ymd period_end_str = Inr d2"
    and ps: "period_start = period_start_of MOSCOW_TZ d1"
    and pe: "period_end = period_end_of MOSCOW_TZ d2"
    and ev: "events = sort_key (\<lambda>x. instant (fst x))
                        (build_events lower fromisoformat MOSCOW_TZ history)"
    and bf: "before = filter (\<lambda>e. instant (fst e) \<le> instant period_start) events"
    and ne: "before \<noteq> []"
    and tg: "snd (last before) = lower status_name"
    and no: "\<forall>e\<in>set events. \<not> (instant period_start < instant (fst e)
                  \<and> instant (fst e) \<le> instant period_end)"
  shows "calculate_in_progress_time_for_period lower fromisoformat MOSCOW_TZ history
            period_start_str period_end_str status_name
         = (case add_working_time_segment period_start period_end of
              Inl e \<Rightarrow> Inl e
            | Inr d \<Rightarrow> Inr (minutes_of d))
     \<and> (d2 < MAXORD \<longrightarrow>
          (\<exists>d. add_working_time_segment period_start period_end = Inr d
             \<and> calculate_in_progress_time_for_period lower fromisoformat MOSCOW_TZ history
                  period_start_str period_end_str status_name = Inr (minutes_of d)))
     \<and> (d2 = MAXORD \<longrightarrow>
          calculate_in_progress_time_for_period lower fromisoformat MOSCOW_TZ history
            period_start_str period_end_str status_name = Inl OverflowError)"
proof -
  let ?t = "lower status_name"
  let ?s0 = "\<lparr>in_target_status = True, last_ts = period_start, total_td = 0\<rparr>"
  have srt: "sorted (map (\<lambda>e. instant (fst e)) events)" using ev by simp
  have init: "initial_state period_start ?t events False"
    using initial_state_sorted [OF srt, of period_start ?t] ne tg bf by simp
  have nonempty: "build_events lower fromisoformat MOSCOW_TZ history \<noteq> []"
    using ne bf ev by auto
  have out: "\<forall>e\<in>set events. instant (fst e) \<le> instant period_start
        \<or> instant period_end < instant (fst e)"
    using no by auto
  have w: "walk_loop period_start period_end ?t events ?s0 =
     (if \<forall>e\<in>set events. instant (fst e) \<le> instant period_start then Inr (False, ?s0)
      else (case add_segment ?s0 period_start period_end of
              Inl e \<Rightarrow> Inl e | Inr s' \<Rightarrow> Inr (True, s')))"
    using walk_loop_outside [OF out, of ?t ?s0] by simp
  have e: "walk_else period_end ?s0 = add_segment ?s0 period_start period_end"
    by (simp add: walk_else_def add_segment_def add_working_time_segment_def)
  have c: "calculate_in_progress_time_for_period lower fromisoformat MOSCOW_TZ history
            period_start_str period_end_str status_name
      = (case walk_loop period_start period_end ?t events ?s0 of
           Inl e \<Rightarrow> Inl e
         | Inr (broke, s) \<Rightarrow>
             (case (if broke then Inr s else walk_else period_end s) of
                Inl e \<Rightarrow> Inl e
              | Inr s' \<Rightarrow> Inr (minutes_of (total_td s'))))"
    using p1 p2 nonempty init unfolding ps pe ev
    by (simp add: calculate_in_progress_time_for_period_def Let_def)
  have main: "calculate_in_progress_time_for_period lower fromisoformat MOSCOW_TZ history
            period_start_str period_end_str status_name
         = (case add_working_time_segment period_start period_end of
              Inl e \<Rightarrow> Inl e
            | Inr d \<Rightarrow> Inr (minutes_of d))"
    unfolding c w
    by (simp add: e add_segment_def split: sum.splits)
  have ret: "\<exists>d. add_working_time_segment period_start period_end = Inr d
             \<and> calculate_in_progress_time_for_period lower fromisoformat MOSCOW_TZ history
                  period_start_str period_end_str status_name = Inr (minutes_of d)"
    if "d2 < MAXORD"
  proof -
    from whole_window_returns [OF that, of MOSCOW_TZ d1]
    obtain d where "add_working_time_segment period_start period_end = Inr d"
      unfolding ps pe by blast
    with main show ?thesis by simp
  qed
  have rai: "calculate_in_progress_time_for_period lower fromisoformat MOSCOW_TZ history
            period_start_str period_end_str status_name = Inl OverflowError"
    if "d2 = MAXORD"
  proof -
    have "d1 \<le> d2" using strptime_ymd_range [OF p1] that by simp
    from whole_window_raises [OF that this, of MOSCOW_TZ] main show ?thesis
      unfolding ps pe by simp
  qed
  from main ret rai show ?thesis by blast
qed

lemma strptime_9999_12_31: "strptime_ymd ''9999-12-31'' = Inr MAXORD"
  by code_simp

theorem in_target_whole_window_witness:
  "strptime_ymd ''2024-01-15'' = Inr 738900
   \<and> filter (\<lambda>e. instant (fst e) \<le> instant (period_start_of pytz_moscow 738900))
        (sort_key (\<lambda>x. instant (fst x))
           (build_events ascii_lower fromisoformat_utc pytz_moscow
              [status_entry ''2024-01-12T13:00:00Z'' ''In Progress''])) \<noteq> []
   \<and> snd (last (filter (\<lambda>e. instant (fst e) \<le> instant (period_start_of pytz_moscow 738900))
        (sort_key (\<lambda>x. instant (fst x))
           (build_events ascii_lower fromisoformat_utc pytz_moscow
              [status_entry ''2024-01-12T13:00:00Z'' ''In Progress''])))) = ascii_lower ''IN PROGRESS''
   \<and> (738900 :: int) < MAXORD
   \<and> add_working_time_segment (period_start_of pytz_moscow 738900)
        (period_end_of pytz_moscow 738900) = Inr (9 * HOUR)
   \<and> calculate_in_progress_time_for_period ascii_lower fromisoformat_utc pytz_moscow
        [status_entry ''2024-01-12T13:00:00Z'' ''In Progress'']
        ''2024-01-15'' ''2024-01-15'' ''IN PROGRESS'' = Inr 540"
proof -
  have ne: "filter (\<lambda>e. instant (fst e) \<le> instant (period_start_of pytz_moscow 738900))
        (sort_key (\<lambda>x. instant (fst x))
           (build_events ascii_lower fromisoformat_utc pytz_moscow
              [status_entry ''2024-01-12T13:00:00Z'' ''In Progress''])) \<noteq> []"
    by code_simp
  have tg: "snd (last (filter (\<lambda>e. instant (fst e) \<le> instant (period_start_of pytz_moscow 738900))
        (sort_key (\<lambda>x. instant (fst x))
           (build_events ascii_lower fromisoformat_utc pytz_moscow
              [status_entry ''2024-01-12T13:00:00Z'' ''In Progress''])))) = ascii_lower ''IN PROGRESS''"
    by code_simp
  have no: "\<forall>e\<in>set (sort_key (\<lambda>x. instant (fst x))
           (build_events ascii_lower fromisoformat_utc pytz_moscow
              [status_entry ''2024-01-12T13:00:00Z'' ''In Progress''])).
         \<not> (instant (period_start_of pytz_moscow 738900) < instant (fst e)
            \<and> instant (fst e) \<le> instant (period_end_of pytz_moscow 738900))"
    by code_simp
  have lt: "(738900 :: int) < MAXORD" by (simp add: MAXORD_def)
  have seg: "add_working_time_segment (period_start_of pytz_moscow 738900)
        (period_end_of pytz_moscow 738900) = Inr (9 * HOUR)"
    by code_simp
  note t = in_target_whole_window [OF strptime_2024_01_15 strptime_2024_01_15 refl refl refl
        refl ne tg no]
  have c: "calculate_in_progress_time_for_period ascii_lower fromisoformat_utc pytz_moscow
        [status_entry ''2024-01-12T13:00:00Z'' ''In Progress'']
        ''2024-01-15'' ''2024-01-15'' ''IN PROGRESS'' = Inr 540"
    using t [THEN conjunct2, THEN conjunct1] lt
    by (auto simp: seg minutes_of_def HOUR_def MINUTE_def)
  show ?thesis by (intro conjI strptime_2024_01_15 ne tg lt seg c)
qed

text \<open>
  The claim as first stated, that a duration is returned for every such timeline and
  period, fails for a period that ends on 9999-12-31.
\<close>

theorem whole_window_last_day_counterexample:
  "strptime_ymd ''9999-12-31'' = Inr MAXORD
   \<and> filter (\<lambda>e. instant (fst e) \<le> instant (period_start_of pytz_moscow MAXORD))
        (sort_key (\<lambda>x. instant (fst x))
           (build_events ascii_lower fromisoformat_utc pytz_moscow
              [status_entry ''2024-01-12T13:00:00Z'' ''In Progress''])) \<noteq> []
   \<and> snd (last (filter (\<lambda>e. instant (fst e) \<le> instant (period_start_of pytz_moscow MAXORD))
        (sort_key (\<lambda>x. instant (fst x))
           (build_events ascii_lower fromisoformat_utc pytz_moscow
              [status_entry ''2024-01-12T13:00:00Z'' ''In Progress''])))) = ascii_lower ''in progress''
   \<and> filter (\<lambda>e. instant (period_start_of pytz_moscow MAXORD) < instant (fst e)
                \<and> instant (fst e) \<le> instant (period_end_of pytz_moscow MAXORD))
        (sort_key (\<lambda>x. instant (fst x))
           (build_events ascii_lower fromisoformat_utc pytz_moscow
              [status_entry ''2024-01-12T13:00:00Z'' ''In Progress''])) = []
   \<and> calculate_in_progress_time_for_period ascii_lower fromisoformat_utc pytz_moscow
        [status_entry ''2024-01-12T13:00:00Z'' ''In Progress'']
        ''9999-12-31'' ''9999-12-31'' ''in progress'' = Inl OverflowError"
proof (intro conjI)
  show "strptime_ymd ''9999-12-31'' = Inr MAXORD" by (rule strptime_9999_12_31)
  show "filter (\<lambda>e. instant (fst e) \<le> instant (period_start_of pytz_moscow MAXORD))
        (sort_key (\<lambda>x. instant (fst x))
           (build_events ascii_lower fromisoformat_utc pytz_moscow
              [status_entry ''2024-01-12T13:00:00Z'' ''In Progress''])) \<noteq> []"
    by code_simp
  show "snd (last (filter (\<lambda>e. instant (fst e) \<le> instant (period_start_of pytz_moscow MAXORD))
        (sort_key (\<lambda>x. instant (fst x))
           (build_events ascii_lower fromisoformat_utc pytz_moscow
              [status_entry ''2024-01-12T13:00:00Z'' ''In Progress''])))) = ascii_lower ''in progress''"
    by code_simp
  show "filter (\<lambda>e. instant (period_start_of pytz_moscow MAXORD) < instant (fst e)
                \<and> instant (fst e) \<le> instant (period_end_of pytz_moscow MAXORD))
        (sort_key (\<lambda>x. instant (fst x))
           (build_events ascii_lower fromisoformat_utc pytz_moscow
              [status_entry ''2024-01-12T13:00:00Z'' ''In Progress''])) = []"
    by code_simp
  show "calculate_in_progress_time_for_period ascii_lower fromisoformat_utc pytz_moscow
        [status_entry ''2024-01-12T13:00:00Z'' ''In Progress'']
        ''9999-12-31'' ''9999-12-31'' ''in progress'' = Inl OverflowError"
    by code_simp
qed

lemma walk_loop_append:
  "walk_loop ps pe t (xs @ ys) s =
     (case walk_loop ps pe t xs s of
        Inl e \<Rightarrow> Inl e
      | Inr (b, s') \<Rightarrow> if b then Inr (True, s') else walk_loop ps pe t ys s')"
proof (induction xs arbitrary: s)
  case Nil
  show ?case by simp
next
  case (Cons x xs)
  obtain dt status where x: "x = (dt, status)" by (cases x)
  show ?case using Cons x by (simp split: sum.splits)
qed

lemma walk_loop_no_break:
  "\<forall>e\<in>set xs. instant (fst e) \<le> instant pe \<Longrightarrow> walk_loop ps pe t xs s = Inr (b, s') \<Longrightarrow> \<not> b"
proof (induction xs arbitrary: s)
  case Nil
  then show ?case by simp
next
  case (Cons x xs)
  obtain dt status where x: "x = (dt, status)" by (cases x)
  show ?case using Cons x by (auto split: if_splits sum.splits)
qed

lemma walk_loop_single_inside:
  "instant ps < instant dt \<Longrightarrow> instant dt \<le> instant pe \<Longrightarrow>
   walk_loop ps pe t [(dt, st)] s = Inr (b, s') \<Longrightarrow>
   \<not> b \<and> in_target_status s' = (st = t) \<and> last_ts s' = dt"
  by (auto split: if_splits sum.splits)

lemma walk_loop_ends_inside:
  assumes "xs \<noteq> []" and "\<forall>e\<in>set xs. instant (fst e) \<le> instant pe"
    and "instant ps < instant (fst (last xs))"
    and "walk_loop ps pe t xs s = Inr (b, s')"
  shows "\<not> b \<and> in_target_status s' = (snd (last xs) = t) \<and> last_ts s' = fst (last xs)"
proof -
  obtain dt st where l: "last xs = (dt, st)" by (cases "last xs")
  have xs: "xs = butlast xs @ [(dt, st)]" using assms(1) l by (metis append_butlast_last_id)
  have le: "instant dt \<le> instant pe" using assms(1,2) l by (metis fst_conv last_in_set)
  have gt: "instant ps < instant dt" using assms(3) l by simp
  have bl: "\<forall>e\<in>set (butlast xs). instant (fst e) \<le> instant pe"
    using assms(2) by (auto dest: in_set_butlastD)
  from assms(4) have w: "walk_loop ps pe t (butlast xs @ [(dt, st)]) s = Inr (b, s')"
    using xs by simp
  obtain s1 where s1: "walk_loop ps pe t [(dt, st)] s1 = Inr (b, s')"
  proof (cases "walk_loop ps pe t (butlast xs) s")
    case (Inl e)
    with w show ?thesis by (simp add: walk_loop_append del: walk_loop.simps)
  next
    case (Inr r)
    obtain b1 s1 where r: "r = (b1, s1)" by (cases r)
    from walk_loop_no_break [OF bl] Inr r have "\<not> b1" by simp
    with w Inr r have "walk_loop ps pe t [(dt, st)] s1 = Inr (b, s')"
      by (simp add: walk_loop_append del: walk_loop.simps)
    then show ?thesis by (rule that)
  qed
  from walk_loop_single_inside [OF gt le s1] l show ?thesis by simp
qed

lemma sorted_partition:
  fixes f :: "'a \<Rightarrow> int"
  shows "sorted (map f xs) \<Longrightarrow>
    xs = filter (\<lambda>x. f x < t) xs @ filter (\<lambda>x. f x = t) xs @ filter (\<lambda>x. t < f x) xs"
proof (induction xs)
  case Nil
  show ?case by simp
next
  case (Cons x xs)
  then have ih: "xs = filter (\<lambda>x. f x < t) xs @ filter (\<lambda>x. f x = t) xs @ filter (\<lambda>x. t < f x) xs"
    by simp
  from Cons.prems have ge: "\<forall>y\<in>set xs. f x \<le> f y" by simp
  consider "f x < t" | "f x = t" | "t < f x" by linarith
  then show ?case
  proof cases
    case 1
    then show ?thesis using ih by simp
  next
    case 2
    with ge have "filter (\<lambda>x. f x < t) xs = []" by (auto simp: filter_empty_conv)
    with 2 ih show ?thesis by simp
  next
    case 3
    with ge have "filter (\<lambda>x. f x < t) xs = []" "filter (\<lambda>x. f x = t) xs = []"
      by (auto simp: filter_empty_conv)
    with 3 ih show ?thesis by simp
  qed
qed

subsection \<open>Events with the same timestamp\<close>

lemma astimezone_canonical:
  "astimezone tz d = Inr dt \<Longrightarrow> utcoffset dt = utcoffset_at tz (instant dt)"
  by (auto simp: astimezone_def Let_def instant_def split: if_splits)

lemma event_of_entry_canonical:
  assumes "event_of_entry lower fromisoformat tz e = Some (dt, st)"
  shows "utcoffset dt = utcoffset_at tz (instant dt)"
proof -
  from assms obtain ds where "parse_iso_to_msk fromisoformat tz ds = Inr dt"
    by (auto simp: event_of_entry_def Let_def split: sum.splits json.splits if_splits)
  then obtain d where "astimezone tz d = Inr dt"
    by (auto simp: parse_iso_to_msk_def split: sum.splits)
  then show ?thesis by (rule astimezone_canonical)
qed

lemma build_events_canonical:
  "(dt, st) \<in> set (build_events lower fromisoformat tz history) \<Longrightarrow>
   utcoffset dt = utcoffset_at tz (instant dt)"
proof (induction history)
  case Nil
  then show ?case by simp
next
  case (Cons e es)
  then show ?case
    by (auto split: option.splits dest: event_of_entry_canonical)
qed

lemma same_instant_same_datetime:
  fixes a b :: datetime
  assumes "utcoffset a = utcoffset_at tz (instant a)" "utcoffset b = utcoffset_at tz (instant b)"
    and "instant a = instant b"
  shows "a = b"
proof -
  from assms have "utcoffset a = utcoffset b" by simp
  moreover from this assms(3) have "wall a = wall b" by (simp add: instant_def)
  ultimately show ?thesis by simp
qed

lemma initial_state_group:
  assumes "same \<noteq> []" and "\<forall>e\<in>set same. fst e = d"
  shows "initial_state ps tg (same @ rest) b = initial_state ps tg (last same # rest) b"
  using assms
proof (induction same arbitrary: b)
  case Nil
  then show ?case by simp
next
  case (Cons x xs)
  obtain dt st where x: "x = (dt, st)" by (cases x)
  with Cons.prems have dt: "dt = d" by simp
  show ?case
  proof (cases "xs = []")
    case True
    then show ?thesis by simp
  next
    case False
    obtain dl sl where l: "last xs = (dl, sl)" by (cases "last xs")
    with False Cons.prems have dl: "dl = d" by (metis fst_conv last_in_set list.set_intros(2))
    from Cons.IH [OF False] Cons.prems
    have ih: "\<And>b. initial_state ps tg (xs @ rest) b = initial_state ps tg (last xs # rest) b"
      by simp
    show ?thesis using False x dt l dl ih by simp
  qed
qed

lemma initial_state_append_cong:
  assumes "\<And>b. initial_state ps tg ys b = initial_state ps tg zs b"
  shows "initial_state ps tg (xs @ ys) b = initial_state ps tg (xs @ zs) b"
proof (induction xs arbitrary: b)
  case Nil
  show ?case using assms by simp
next
  case (Cons x xs)
  obtain dt st where x: "x = (dt, st)" by (cases x)
  show ?case using Cons x by simp
qed

lemma walk_loop_append_cong:
  assumes "\<And>s. walk_loop ps pe tg ys s = walk_loop ps pe tg zs s"
  shows "walk_loop ps pe tg (xs @ ys) s = walk_loop ps pe tg (xs @ zs) s"
  by (simp add: walk_loop_append assms split: sum.splits prod.splits)

lemma walk_loop_group:
  assumes "same \<noteq> []" and "\<forall>e\<in>set same. fst e = d"
  shows "walk_loop ps pe tg (same @ rest) s = walk_loop ps pe tg (last same # rest) s"
  using assms
proof (induction same arbitrary: s)
  case Nil
  then show ?case by simp
next
  case (Cons x xs)
  obtain dt st where x: "x = (dt, st)" by (cases x)
  with Cons.prems have dt: "dt = d" by simp
  show ?case
  proof (cases "xs = []")
    case True
    then show ?thesis by simp
  next
    case False
    obtain dl sl where l: "last xs = (dl, sl)" by (cases "last xs")
    with False Cons.prems have dl: "dl = d" by (metis fst_conv last_in_set list.set_intros(2))
    from Cons.IH [OF False] Cons.prems
    have ih: "\<And>s. walk_loop ps pe tg (xs @ rest) s = walk_loop ps pe tg (last xs # rest) s"
      by simp
    show ?thesis
    proof (cases "instant d \<le> instant ps")
      case True
      with False x dt l dl ih show ?thesis by simp
    next
      case nps: False
      show ?thesis
      proof (cases "instant pe < instant d")
        case True
        with nps False x dt l dl show ?thesis by simp
      next
        case npe: False
        show ?thesis
        proof (cases "if in_target_status s then add_segment s (last_ts s) d else Inr s")
          case (Inl e)
          with nps npe False x dt l dl show ?thesis by simp
        next
          case (Inr s1)
          have g: "add_segment t d d = Inr t" for t
            by (simp add: add_segment_guard)
          from Inr have tt: "total_td s1 = total_td s1" by simp
          show ?thesis
            using nps npe False x dt l dl Inr ih g
            by (simp add: add_segment_guard)
        qed
      qed
    qed
  qed
qed

lemma group_canonical:
  assumes "same = filter (\<lambda>x. instant (fst x) = t) (build_events lower fromisoformat tz history)"
    and "same \<noteq> []"
  shows "\<forall>e\<in>set same. fst e = fst (last same)" and "instant (fst (last same)) = t"
proof -
  have l: "last same \<in> set same" using assms(2) by simp
  then show t: "instant (fst (last same)) = t" using assms(1) by auto
  show "\<forall>e\<in>set same. fst e = fst (last same)"
  proof
    fix e assume e: "e \<in> set same"
    obtain dt st where p: "e = (dt, st)" by (cases e)
    obtain dl sl where q: "last same = (dl, sl)" by (cases "last same")
    from e p assms(1) have "(dt, st) \<in> set (build_events lower fromisoformat tz history)"
      and i1: "instant dt = t" by auto
    then have c1: "utcoffset dt = utcoffset_at tz (instant dt)"
      by (auto dest: build_events_canonical)
    from l q assms(1) have "(dl, sl) \<in> set (build_events lower fromisoformat tz history)"
      and i2: "instant dl = t" by auto
    then have c2: "utcoffset dl = utcoffset_at tz (instant dl)"
      by (auto dest: build_events_canonical)
    from same_instant_same_datetime [OF c1 c2] i1 i2 have "dt = dl" by simp
    with p q show "fst e = fst (last same)" by simp
  qed
qed

lemma calc_collapsed:
  assumes p1: "strptime_ymd period_start_str = Inr d1"
    and p2: "strptime_ymd period_end_str = Inr d2"
    and evs: "evs = build_events lower fromisoformat MOSCOW_TZ history"
    and sm: "same = filter (\<lambda>x. instant (fst x) = t) evs"
    and ne: "same \<noteq> []"
    and co: "collapsed = filter (\<lambda>x. instant (fst x) < t) (sort_key (\<lambda>x. instant (fst x)) evs)
               @ last same # filter (\<lambda>x. t < instant (fst x)) (sort_key (\<lambda>x. instant (fst x)) evs)"
  shows "calculate_in_progress_time_for_period lower fromisoformat MOSCOW_TZ history
           period_start_str period_end_str status_name =
        (case walk_loop (period_start_of MOSCOW_TZ d1) (period_end_of MOSCOW_TZ d2)
                (lower status_name) collapsed
                \<lparr>in_target_status = initial_state (period_start_of MOSCOW_TZ d1)
                                       (lower status_name) collapsed False,
                 last_ts = period_start_of MOSCOW_TZ d1, total_td = 0\<rparr> of
           Inl e \<Rightarrow> Inl e
         | Inr (broke, s) \<Rightarrow>
             (case (if broke then Inr s else walk_else (period_end_of MOSCOW_TZ d2) s) of
                Inl e \<Rightarrow> Inl e
              | Inr s' \<Rightarrow> Inr (minutes_of (total_td s'))))"
proof -
  let ?f = "\<lambda>x. instant (fst x)"
  let ?events = "sort_key ?f evs"
  let ?earlier = "filter (\<lambda>x. ?f x < t) ?events"
  let ?later = "filter (\<lambda>x. t < ?f x) ?events"
  let ?ps = "period_start_of MOSCOW_TZ d1" and ?pe = "period_end_of MOSCOW_TZ d2"
  let ?tg = "lower status_name"
  have stable: "filter (\<lambda>x. ?f x = t) ?events = same"
    unfolding sm by (rule sort_key_stable)
  have part: "?events = ?earlier @ same @ ?later"
    using sorted_partition [of ?f ?events t] stable by simp
  have canon: "\<forall>e\<in>set same. fst e = fst (last same)"
    using group_canonical(1) [OF sm [unfolded evs] ne] .
  have i: "initial_state ?ps ?tg ?events b = initial_state ?ps ?tg collapsed b" for b
    unfolding co
    by (subst part, rule initial_state_append_cong, rule initial_state_group [OF ne canon])
  have w: "walk_loop ?ps ?pe ?tg ?events s = walk_loop ?ps ?pe ?tg collapsed s" for s
    unfolding co
    by (subst part, rule walk_loop_append_cong, rule walk_loop_group [OF ne canon])
  have nonempty: "build_events lower fromisoformat MOSCOW_TZ history \<noteq> []"
    using ne sm evs by auto
  show ?thesis
    using p1 p2 nonempty
    by (simp add: calculate_in_progress_time_for_period_def Let_def i w evs [symmetric])
qed

lemma same_instant_walk:
  assumes ev: "events = sort_key (\<lambda>x. instant (fst x)) evs"
    and sm: "same = filter (\<lambda>x. instant (fst x) = t) evs"
    and ne: "same \<noteq> []"
    and ea: "earlier = filter (\<lambda>x. instant (fst x) < t) events"
    and la: "later = filter (\<lambda>x. t < instant (fst x)) events"
  shows "events = earlier @ same @ later
    \<and> (instant period_start < t \<and> t \<le> instant period_end
         \<and> walk_loop period_start period_end target_status (earlier @ same) s = Inr (broke, s')
       \<longrightarrow> \<not> broke \<and> in_target_status s' = (snd (last same) = target_status)
           \<and> last_ts s' = fst (last same))
    \<and> walk_loop period_start period_end target_status events s =
        (case walk_loop period_start period_end target_status (earlier @ same) s of
           Inl e \<Rightarrow> Inl e
         | Inr (b, s1) \<Rightarrow>
             if b then Inr (True, s1)
             else walk_loop period_start period_end target_status later s1)
    \<and> (t \<le> instant period_start
         \<and> (\<forall>e\<in>set evs. instant (fst e) \<le> instant period_start \<longrightarrow> instant (fst e) \<le> t)
       \<longrightarrow> initial_state period_start target_status events False
             = (snd (last same) = target_status))"
proof -
  have srt: "sorted (map (\<lambda>e. instant (fst e)) events)" using ev by simp
  have stable: "filter (\<lambda>x. instant (fst x) = t) events = same"
    unfolding ev sm by (rule sort_key_stable)
  have part: "events = earlier @ same @ later"
    using sorted_partition [OF srt, of t] stable ea la by simp
  have last_same: "instant (fst (last same)) = t"
    using ne sm by (metis (mono_tags, lifting) last_in_set mem_Collect_eq set_filter)
  have a2: "\<not> broke \<and> in_target_status s' = (snd (last same) = target_status)
           \<and> last_ts s' = fst (last same)"
    if h: "instant period_start < t" "t \<le> instant period_end"
      "walk_loop period_start period_end target_status (earlier @ same) s = Inr (broke, s')"
  proof -
    have "\<forall>e\<in>set (earlier @ same). instant (fst e) \<le> instant period_end"
      using h(2) ea sm by auto
    moreover have "last (earlier @ same) = last same" using ne by simp
    ultimately show ?thesis
      using walk_loop_ends_inside [of "earlier @ same" period_end period_start target_status s broke s']
        h ne last_same by simp
  qed
  have a3: "walk_loop period_start period_end target_status events s =
        (case walk_loop period_start period_end target_status (earlier @ same) s of
           Inl e \<Rightarrow> Inl e
         | Inr (b, s1) \<Rightarrow>
             if b then Inr (True, s1)
             else walk_loop period_start period_end target_status later s1)"
    using walk_loop_append [of period_start period_end target_status "earlier @ same" later s]
      part by simp
  have a4: "initial_state period_start target_status events False
             = (snd (last same) = target_status)"
    if h: "t \<le> instant period_start"
      "\<forall>e\<in>set evs. instant (fst e) \<le> instant period_start \<longrightarrow> instant (fst e) \<le> t"
  proof -
    have "filter (\<lambda>e. instant (fst e) \<le> instant period_start) events
        = filter (\<lambda>e. instant (fst e) \<le> t) events"
      using h ev by (intro filter_cong) auto
    also have "\<dots> = filter (\<lambda>e. instant (fst e) \<le> t) (earlier @ same @ later)"
      using part by simp
    also have "\<dots> = earlier @ same"
    proof -
      have "filter (\<lambda>e. instant (fst e) \<le> t) earlier = earlier"
        unfolding ea filter_id_conv by auto
      moreover have "filter (\<lambda>e. instant (fst e) \<le> t) same = same"
        unfolding sm filter_id_conv by auto
      moreover have "filter (\<lambda>e. instant (fst e) \<le> t) later = []"
        unfolding la filter_empty_conv by auto
      ultimately show ?thesis by simp
    qed
    finally have "filter (\<lambda>e. instant (fst e) \<le> instant period_start) events = earlier @ same" .
    then show ?thesis using initial_state_sorted [OF srt, of period_start target_status] ne
      by simp
  qed
  show ?thesis using part a2 a3 a4 by blast
qed


lemma filter_below_collapsed:
  fixes f :: "'a \<Rightarrow> int"
  assumes "f l = t"
  shows "filter (\<lambda>x. f x < t) (sort_key f (filter (\<lambda>x. f x \<noteq> t) xs @ [l]))
           = filter (\<lambda>x. f x < t) (sort_key f xs)"
    and "filter (\<lambda>x. t < f x) (sort_key f (filter (\<lambda>x. f x \<noteq> t) xs @ [l]))
           = filter (\<lambda>x. t < f x) (sort_key f xs)"
proof -
  have a: "(\<lambda>x. f x \<noteq> t \<and> f x < t) = (\<lambda>x. f x < t)" by auto
  have b: "(\<lambda>x. f x \<noteq> t \<and> t < f x) = (\<lambda>x. t < f x)" by auto
  show "filter (\<lambda>x. f x < t) (sort_key f (filter (\<lambda>x. f x \<noteq> t) xs @ [l]))
           = filter (\<lambda>x. f x < t) (sort_key f xs)"
    using assms by (simp add: filter_sort a)
  show "filter (\<lambda>x. t < f x) (sort_key f (filter (\<lambda>x. f x \<noteq> t) xs @ [l]))
           = filter (\<lambda>x. t < f x) (sort_key f xs)"
    using assms by (simp add: filter_sort b)
qed

text \<open>
  Claim C7.  Let \<open>same\<close> be the events built from the history, in their original
  order, that share the instant \<open>t\<close>.  The sorted list the accumulator walks is the
  earlier events, then \<open>same\<close> in that very order, then the later events.  What the
  accumulator returns is what its two loops give on the list in which \<open>same\<close> is
  replaced by its last event alone; so it returns the same for any other history in
  which, of the events at \<open>t\<close>, only that last one is left.  When \<open>t\<close> lies after
  the start and at or before the end of the period, the walk reaches the end of
  \<open>same\<close> without leaving the loop, in the state of the last event of \<open>same\<close> and
  with the boundary at \<open>t\<close>, and goes on from there over the later events.  When
  \<open>t\<close> is the latest instant at or before the start, the last event of \<open>same\<close>
  gives the state at the start.
\<close>

theorem same_instant_last_wins:
  assumes p1: "strptime_ymd period_start_str = Inr d1"
    and p2: "strptime_ymd period_end_str = Inr d2"
    and ps: "period_start = period_start_of MOSCOW_TZ d1"
    and pe: "period_end = period_end_of MOSCOW_TZ d2"
    and tg: "target_status = lower status_name"
    and evs: "evs = build_events lower fromisoformat MOSCOW_TZ history"
    and ev: "events = sort_key (\<lambda>x. instant (fst x)) evs"
    and sm: "same = filter (\<lambda>x. instant (fst x) = t) evs"
    and ne: "same \<noteq> []"
    and ea: "earlier = filter (\<lambda>x. instant (fst x) < t) events"
    and la: "later = filter (\<lambda>x. t < instant (fst x)) events"
  shows "events = earlier @ same @ later
    \<and> calculate_in_progress_time_for_period lower fromisoformat MOSCOW_TZ history
           period_start_str period_end_str status_name =
        (case walk_loop period_start period_end target_status (earlier @ last same # later)
                \<lparr>in_target_status = initial_state period_start target_status
                                       (earlier @ last same # later) False,
                 last_ts = period_start, total_td = 0\<rparr> of
           Inl e \<Rightarrow> Inl e
         | Inr (broke, s) \<Rightarrow>
             (case (if broke then Inr s else walk_else period_end s) of
                Inl e \<Rightarrow> Inl e
              | Inr s' \<Rightarrow> Inr (minutes_of (total_td s'))))
    \<and> (build_events lower fromisoformat MOSCOW_TZ other_history
          = filter (\<lambda>x. instant (fst x) \<noteq> t) evs @ [last same]
       \<longrightarrow> calculate_in_progress_time_for_period lower fromisoformat MOSCOW_TZ other_history
             period_start_str period_end_str status_name
           = calculate_in_progress_time_for_period lower fromisoformat MOSCOW_TZ history
               period_start_str period_end_str status_name)
    \<and> (instant period_start < t \<and> t \<le> instant period_end
         \<and> walk_loop period_start period_end target_status (earlier @ same) s = Inr (broke, s')
       \<longrightarrow> \<not> broke \<and> in_target_status s' = (snd (last same) = target_status)
           \<and> last_ts s' = fst (last same))
    \<and> walk_loop period_start period_end target_status events s =
        (case walk_loop period_start period_end target_status (earlier @ same) s of
           Inl e \<Rightarrow> Inl e
         | Inr (b, s1) \<Rightarrow>
             if b then Inr (True, s1)
             else walk_loop period_start period_end target_status later s1)
    \<and> (t \<le> instant period_start
         \<and> (\<forall>e\<in>set evs. instant (fst e) \<le> instant period_start \<longrightarrow> instant (fst e) \<le> t)
       \<longrightarrow> initial_state period_start target_status events False
             = (snd (last same) = target_status))"
proof -
  let ?f = "\<lambda>x. instant (fst x)"
  note old = same_instant_walk [OF ev sm ne ea la, of period_start period_end target_status
      s broke s']
  have co: "earlier @ last same # later
      = filter (\<lambda>x. ?f x < t) (sort_key ?f evs) @ last same
          # filter (\<lambda>x. t < ?f x) (sort_key ?f evs)"
    unfolding ea la ev by simp
  have c1: "calculate_in_progress_time_for_period lower fromisoformat MOSCOW_TZ history
           period_start_str period_end_str status_name =
        (case walk_loop period_start period_end target_status (earlier @ last same # later)
                \<lparr>in_target_status = initial_state period_start target_status
                                       (earlier @ last same # later) False,
                 last_ts = period_start, total_td = 0\<rparr> of
           Inl e \<Rightarrow> Inl e
         | Inr (broke, s) \<Rightarrow>
             (case (if broke then Inr s else walk_else period_end s) of
                Inl e \<Rightarrow> Inl e
              | Inr s' \<Rightarrow> Inr (minutes_of (total_td s'))))"
    unfolding ps pe tg by (rule calc_collapsed [OF p1 p2 evs sm ne co])
  have c2: "calculate_in_progress_time_for_period lower fromisoformat MOSCOW_TZ other_history
             period_start_str period_end_str status_name
           = calculate_in_progress_time_for_period lower fromisoformat MOSCOW_TZ history
               period_start_str period_end_str status_name"
    if h: "build_events lower fromisoformat MOSCOW_TZ other_history
          = filter (\<lambda>x. ?f x \<noteq> t) evs @ [last same]"
  proof -
    have lt: "?f (last same) = t"
      using group_canonical(2) [OF sm [unfolded evs] ne] .
    let ?evs2 = "filter (\<lambda>x. ?f x \<noteq> t) evs @ [last same]"
    have sm2: "[last same] = filter (\<lambda>x. ?f x = t) ?evs2"
      using lt by simp
    have co2: "earlier @ last same # later
      = filter (\<lambda>x. ?f x < t) (sort_key ?f ?evs2) @ last [last same]
          # filter (\<lambda>x. t < ?f x) (sort_key ?f ?evs2)"
      using filter_below_collapsed [of ?f "last same" t evs, OF lt] co by simp
    have "calculate_in_progress_time_for_period lower fromisoformat MOSCOW_TZ other_history
           period_start_str period_end_str status_name =
        (case walk_loop period_start period_end target_status (earlier @ last same # later)
                \<lparr>in_target_status = initial_state period_start target_status
                                       (earlier @ last same # later) False,
                 last_ts = period_start, total_td = 0\<rparr> of
           Inl e \<Rightarrow> Inl e
         | Inr (broke, s) \<Rightarrow>
             (case (if broke then Inr s else walk_else period_end s) of
                Inl e \<Rightarrow> Inl e
              | Inr s' \<Rightarrow> Inr (minutes_of (total_td s'))))"
      unfolding ps pe tg
      by (rule calc_collapsed [OF p1 p2 h [symmetric] sm2 _ co2]) simp
    with c1 show ?thesis by simp
  qed
  from old c1 c2 show ?thesis by blast
qed

theorem same_instant_last_wins_witness:
  "strptime_ymd ''2024-01-15'' = Inr 738900
   \<and> [(moscow_time 738900 10 0, ''done''), (moscow_time 738900 10 0, ''in progress'')]
       = filter (\<lambda>x. instant (fst x) = instant (moscow_time 738900 10 0))
           (build_events ascii_lower fromisoformat_utc pytz_moscow
              [status_entry ''2024-01-15T07:00:00Z'' ''Done'',
               status_entry ''2024-01-12T13:00:00Z'' ''To Do'',
               status_entry ''2024-01-15T07:00:00Z'' ''In Progress''])
   \<and> [(moscow_time 738900 10 0, ''done''), (moscow_time 738900 10 0, ''in progress'')] \<noteq> []
   \<and> build_events ascii_lower fromisoformat_utc pytz_moscow
         [status_entry ''2024-01-12T13:00:00Z'' ''To Do'',
          status_entry ''2024-01-15T07:00:00Z'' ''In Progress'']
       = filter (\<lambda>x. instant (fst x) \<noteq> instant (moscow_time 738900 10 0))
           (build_events ascii_lower fromisoformat_utc pytz_moscow
              [status_entry ''2024-01-15T07:00:00Z'' ''Done'',
               status_entry ''2024-01-12T13:00:00Z'' ''To Do'',
               status_entry ''2024-01-15T07:00:00Z'' ''In Progress''])
         @ [last [(moscow_time 738900 10 0, ''done''),
                  (moscow_time 738900 10 0, ''in progress'')]]
   \<and> calculate_in_progress_time_for_period ascii_lower fromisoformat_utc pytz_moscow
         [status_entry ''2024-01-15T07:00:00Z'' ''Done'',
          status_entry ''2024-01-12T13:00:00Z'' ''To Do'',
          status_entry ''2024-01-15T07:00:00Z'' ''In Progress'']
         ''2024-01-15'' ''2024-01-15'' ''in progress'' = Inr 420
   \<and> calculate_in_progress_time_for_period ascii_lower fromisoformat_utc pytz_moscow
         [status_entry ''2024-01-12T13:00:00Z'' ''To Do'',
          status_entry ''2024-01-15T07:00:00Z'' ''In Progress'']
         ''2024-01-15'' ''2024-01-15'' ''in progress'' = Inr 420
   \<and> calculate_in_progress_time_for_period ascii_lower fromisoformat_utc pytz_moscow
         [status_entry ''2024-01-15T07:00:00Z'' ''In Progress'',
          status_entry ''2024-01-12T13:00:00Z'' ''To Do'',
          status_entry ''2024-01-15T07:00:00Z'' ''Done'']
         ''2024-01-15'' ''2024-01-15'' ''in progress'' = Inr 0"
proof -
  let ?H = "[status_entry ''2024-01-15T07:00:00Z'' ''Done'',
             status_entry ''2024-01-12T13:00:00Z'' ''To Do'',
             status_entry ''2024-01-15T07:00:00Z'' ''In Progress'']"
  let ?H2 = "[status_entry ''2024-01-12T13:00:00Z'' ''To Do'',
              status_entry ''2024-01-15T07:00:00Z'' ''In Progress'']"
  let ?same = "[(moscow_time 738900 10 0, ''done''), (moscow_time 738900 10 0, ''in progress'')]"
  have sm: "?same = filter (\<lambda>x. instant (fst x) = instant (moscow_time 738900 10 0))
           (build_events ascii_lower fromisoformat_utc pytz_moscow ?H)"
    by code_simp
  have ne: "?same \<noteq> []" by simp
  have h2: "build_events ascii_lower fromisoformat_utc pytz_moscow ?H2
       = filter (\<lambda>x. instant (fst x) \<noteq> instant (moscow_time 738900 10 0))
           (build_events ascii_lower fromisoformat_utc pytz_moscow ?H)
         @ [last ?same]"
    by code_simp
  note t = same_instant_last_wins [where t = "instant (moscow_time 738900 10 0)"
      and other_history = ?H2 and status_name = "''in progress''",
      OF strptime_2024_01_15 strptime_2024_01_15 refl refl refl refl refl sm ne refl refl]
  have c: "calculate_in_progress_time_for_period ascii_lower fromisoformat_utc pytz_moscow ?H
         ''2024-01-15'' ''2024-01-15'' ''in progress'' = Inr 420"
    by (subst t [THEN conjunct2, THEN conjunct1]) code_simp
  have c2: "calculate_in_progress_time_for_period ascii_lower fromisoformat_utc pytz_moscow ?H2
         ''2024-01-15'' ''2024-01-15'' ''in progress'' = Inr 420"
    using t [THEN conjunct2, THEN conjunct2, THEN conjunct1] h2 c by simp
  have c3: "calculate_in_progress_time_for_period ascii_lower fromisoformat_utc pytz_moscow
         [status_entry ''2024-01-15T07:00:00Z'' ''In Progress'',
          status_entry ''2024-01-12T13:00:00Z'' ''To Do'',
          status_entry ''2024-01-15T07:00:00Z'' ''Done'']
         ''2024-01-15'' ''2024-01-15'' ''in progress'' = Inr 0"
    by code_simp
  show ?thesis by (intro conjI strptime_2024_01_15 sm ne h2 c c2 c3)
qed

subsection \<open>The day loop\<close>





subsection \<open>A week end inside the window\<close>

lemma date_of_day_offset:
  "0 \<le> r \<Longrightarrow> r < DAY \<Longrightarrow> date_of \<lparr>wall = d * DAY + r, utcoffset = off\<rparr> = d"
  by (simp add: date_of_def DAY_def)

lemma next_day_start_ok:
  "wall cur + DAY \<le> MAX_WALL \<Longrightarrow>
   next_day_start cur = Inr \<lparr>wall = (date_of cur + 1) * DAY + 8 * HOUR, utcoffset = utcoffset cur\<rparr>"
  by (simp add: next_day_start_def add_one_day_def replace_hour_def date_of_def DAY_def
      HOUR_def WORK_START_HOUR_def)

lemma aws_body_weekend:
  "\<not> is_working_day cur \<Longrightarrow> wall cur + DAY \<le> MAX_WALL \<Longrightarrow>
   aws_body end_dt cur tot =
     Inr (\<lparr>wall = (date_of cur + 1) * DAY + 8 * HOUR, utcoffset = utcoffset cur\<rparr>, tot)"
  by (simp add: aws_body_def next_day_start_ok)

lemma aws_body_workday:
  assumes "is_working_day cur" and "wall cur + DAY \<le> MAX_WALL"
    and "seg_start = max (instant cur) (date_of cur * DAY + 8 * HOUR - utcoffset cur)"
    and "seg_end = min (instant end_dt) (date_of cur * DAY + 17 * HOUR - utcoffset cur)"
  shows "aws_body end_dt cur tot =
     Inr (\<lparr>wall = (date_of cur + 1) * DAY + 8 * HOUR, utcoffset = utcoffset cur\<rparr>,
          if seg_start < seg_end then tot + (seg_end - seg_start) else tot)"
  using assms
  by (simp add: aws_body_def next_day_start_ok Let_def py_max_def py_min_def replace_hour_def
      instant_def WORK_START_HOUR_def WORK_END_HOUR_def max_def min_def)

lemma weekday_day_offset:
  "0 \<le> r \<Longrightarrow> r < DAY \<Longrightarrow> weekday \<lparr>wall = d * DAY + r, utcoffset = off\<rparr> = (d + 6) mod 7"
  by (simp add: weekday_def date_of_day_offset)

lemma aws_loop_step:
  "date_of cur \<le> date_of end_dt \<Longrightarrow> aws_body end_dt cur tot = Inr (cur', tot') \<Longrightarrow>
   aws_loop end_dt cur tot = aws_loop end_dt cur' tot'"
  by (simp add: aws_loop.simps [of end_dt cur tot])

lemma aws_loop_exit:
  "date_of end_dt < date_of cur \<Longrightarrow> aws_loop end_dt cur tot = Inr tot"
  by (simp add: aws_loop.simps [of end_dt cur tot])

lemma friday_monday_overlap:
  assumes fri: "(fri + 6) mod 7 = 4" and rng: "fri + 4 \<le> MAXORD"
    and off: "\<bar>off - z\<bar> \<le> 6 * HOUR"
  shows "add_working_time_segment \<lparr>wall = fri * DAY + 16 * HOUR, utcoffset = off\<rparr>
           \<lparr>wall = (fri + 3) * DAY + 23 * HOUR + 59 * MINUTE + 59 * SEC, utcoffset = z\<rparr>
         = Inr (10 * HOUR)"
proof -
  let ?pe = "\<lparr>wall = (fri + 3) * DAY + 23 * HOUR + 59 * MINUTE + 59 * SEC, utcoffset = z\<rparr>"
  let ?c0 = "\<lparr>wall = fri * DAY + 16 * HOUR, utcoffset = off\<rparr>"
  let ?c1 = "\<lparr>wall = (fri + 1) * DAY + 8 * HOUR, utcoffset = off\<rparr>"
  let ?c2 = "\<lparr>wall = (fri + 2) * DAY + 8 * HOUR, utcoffset = off\<rparr>"
  let ?c3 = "\<lparr>wall = (fri + 3) * DAY + 8 * HOUR, utcoffset = off\<rparr>"
  let ?c4 = "\<lparr>wall = (fri + 4) * DAY + 8 * HOUR, utcoffset = off\<rparr>"
  have dpe: "date_of ?pe = fri + 3"
    using date_of_day_offset [of "23 * HOUR + 59 * MINUTE + 59 * SEC" "fri + 3" z]
    by (simp add: DAY_def HOUR_def MINUTE_def SEC_def add.assoc)
  have d0: "date_of ?c0 = fri" by (rule date_of_day_offset) (simp_all add: DAY_def HOUR_def)
  have d1: "date_of ?c1 = fri + 1" by (rule date_of_day_offset) (simp_all add: DAY_def HOUR_def)
  have d2: "date_of ?c2 = fri + 2" by (rule date_of_day_offset) (simp_all add: DAY_def HOUR_def)
  have d3: "date_of ?c3 = fri + 3" by (rule date_of_day_offset) (simp_all add: DAY_def HOUR_def)
  have d4: "date_of ?c4 = fri + 4" by (rule date_of_day_offset) (simp_all add: DAY_def HOUR_def)
  have w0: "is_working_day ?c0" using fri by (simp add: is_working_day_def weekday_def d0)
  have w1: "\<not> is_working_day ?c1"
    using fri unfolding is_working_day_def weekday_def d1 by presburger
  have w2: "\<not> is_working_day ?c2"
    using fri unfolding is_working_day_def weekday_def d2 by presburger
  have w3: "is_working_day ?c3"
    using fri unfolding is_working_day_def weekday_def d3 by presburger
  have m0: "wall ?c0 + DAY \<le> MAX_WALL" "wall ?c1 + DAY \<le> MAX_WALL"
    "wall ?c2 + DAY \<le> MAX_WALL" "wall ?c3 + DAY \<le> MAX_WALL"
    using rng by (simp_all add: MAX_WALL_def MAXORD_def DAY_def HOUR_def)
  have b0: "aws_body ?pe ?c0 0 = Inr (?c1, HOUR)"
    using aws_body_workday [OF w0 m0(1) refl refl, of ?pe 0, unfolded d0] off
    by (simp add: instant_def DAY_def HOUR_def MINUTE_def SEC_def)
  have b1: "aws_body ?pe ?c1 HOUR = Inr (?c2, HOUR)"
    using aws_body_weekend [OF w1 m0(2), of ?pe HOUR, unfolded d1] by simp
  have b2: "aws_body ?pe ?c2 HOUR = Inr (?c3, HOUR)"
    using aws_body_weekend [OF w2 m0(3), of ?pe HOUR, unfolded d2] by simp
  have b3: "aws_body ?pe ?c3 HOUR = Inr (?c4, 10 * HOUR)"
    using aws_body_workday [OF w3 m0(4) refl refl, of ?pe HOUR, unfolded d3] off
    by (simp add: instant_def DAY_def HOUR_def MINUTE_def SEC_def)
  have "aws_loop ?pe ?c0 0 = aws_loop ?pe ?c1 HOUR"
    by (rule aws_loop_step [OF _ b0]) (simp add: d0 dpe)
  also have "\<dots> = aws_loop ?pe ?c2 HOUR"
    by (rule aws_loop_step [OF _ b1]) (simp add: d1 dpe)
  also have "\<dots> = aws_loop ?pe ?c3 HOUR"
    by (rule aws_loop_step [OF _ b2]) (simp add: d2 dpe)
  also have "\<dots> = aws_loop ?pe ?c4 (10 * HOUR)"
    by (rule aws_loop_step [OF _ b3]) (simp add: d3 dpe)
  also have "\<dots> = Inr (10 * HOUR)"
    by (rule aws_loop_exit) (simp add: d4 dpe)
  finally have l: "aws_loop ?pe ?c0 0 = Inr (10 * HOUR)" .
  have "instant ?c0 < instant ?pe"
    using off by (simp add: instant_def DAY_def HOUR_def MINUTE_def SEC_def)
  with l show ?thesis by (simp add: add_working_time_segment_def)
qed

text \<open>
  Claim C2.  The timeline holds the single event (Friday 16:00, "in progress"), the
  period ends on the following Monday (its end instant is that Monday 23:59:59) and
  starts on that Friday or earlier, and the target status is "in progress".  Then the
  accumulator returns 600 minutes: one hour of the Friday, nine hours of the Monday,
  nothing for the weekend.  The event's zone offset may differ from that of the
  period bounds by up to six hours.
\<close>

theorem friday_to_monday_ten_hours:
  assumes p1: "strptime_ymd period_start_str = Inr d1"
    and p2: "strptime_ymd period_end_str = Inr (fri + 3)"
    and le: "d1 \<le> fri"
    and dt: "dt = \<lparr>wall = fri * DAY + 16 * HOUR, utcoffset = off\<rparr>"
    and fri: "weekday dt = 4"
    and ev: "build_events lower fromisoformat MOSCOW_TZ history = [(dt, ''in progress'')]"
    and st: "lower status_name = ''in progress''"
    and off: "\<bar>off - zone_utcoffset MOSCOW_TZ\<bar> \<le> 6 * HOUR"
  shows "calculate_in_progress_time_for_period lower fromisoformat MOSCOW_TZ history
           period_start_str period_end_str status_name = Inr 600"
proof -
  let ?z = "zone_utcoffset MOSCOW_TZ"
  let ?ps = "period_start_of MOSCOW_TZ d1" and ?pe = "period_end_of MOSCOW_TZ (fri + 3)"
  have f: "(fri + 6) mod 7 = 4"
    using fri weekday_day_offset [of "16 * HOUR" fri off]
    by (simp add: dt DAY_def HOUR_def)
  have "fri + 3 \<le> MAXORD" using strptime_ymd_range [OF p2] by simp
  moreover have "fri + 3 \<noteq> MAXORD" using f unfolding MAXORD_def by presburger
  ultimately have rng: "fri + 4 \<le> MAXORD" by simp
  have seg: "add_working_time_segment dt ?pe = Inr (10 * HOUR)"
    unfolding dt period_end_of_def by (rule friday_monday_overlap [OF f rng off])
  have after: "\<not> instant dt \<le> instant ?ps"
    using le off by (simp add: dt period_start_of_def instant_def DAY_def HOUR_def)
  have inside: "\<not> instant ?pe < instant dt" "instant dt < instant ?pe"
    using off by (simp_all add: dt period_end_of_def instant_def DAY_def HOUR_def MINUTE_def SEC_def)
  show ?thesis
    using p1 p2 ev st after inside seg
    by (simp add: calculate_in_progress_time_for_period_def Let_def walk_else_def
        add_segment_def minutes_of_def HOUR_def MINUTE_def)
qed

theorem friday_to_monday_ten_hours_witness:
  "strptime_ymd ''2024-01-12'' = Inr 738897
   \<and> strptime_ymd ''2024-01-15'' = Inr (738897 + 3)
   \<and> (738897 :: int) \<le> 738897
   \<and> weekday \<lparr>wall = 738897 * DAY + 16 * HOUR, utcoffset = 3 * HOUR\<rparr> = 4
   \<and> build_events ascii_lower fromisoformat_utc pytz_moscow
        [status_entry ''2024-01-12T13:00:00Z'' ''In Progress'']
      = [(\<lparr>wall = 738897 * DAY + 16 * HOUR, utcoffset = 3 * HOUR\<rparr>, ''in progress'')]
   \<and> ascii_lower ''In Progress'' = ''in progress''
   \<and> \<bar>3 * HOUR - zone_utcoffset pytz_moscow\<bar> \<le> 6 * HOUR
   \<and> calculate_in_progress_time_for_period ascii_lower fromisoformat_utc pytz_moscow
        [status_entry ''2024-01-12T13:00:00Z'' ''In Progress'']
        ''2024-01-12'' ''2024-01-15'' ''In Progress'' = Inr 600"
proof -
  have p2: "strptime_ymd ''2024-01-15'' = Inr (738897 + 3)"
    using strptime_2024_01_15 by simp
  have le: "(738897 :: int) \<le> 738897" by simp
  have wd: "weekday \<lparr>wall = 738897 * DAY + 16 * HOUR, utcoffset = 3 * HOUR\<rparr> = 4"
    by code_simp
  have ev: "build_events ascii_lower fromisoformat_utc pytz_moscow
        [status_entry ''2024-01-12T13:00:00Z'' ''In Progress'']
      = [(\<lparr>wall = 738897 * DAY + 16 * HOUR, utcoffset = 3 * HOUR\<rparr>, ''in progress'')]"
    by code_simp
  have st: "ascii_lower ''In Progress'' = ''in progress''" by code_simp
  have off: "\<bar>3 * HOUR - zone_utcoffset pytz_moscow\<bar> \<le> 6 * HOUR" by code_simp
  have c: "calculate_in_progress_time_for_period ascii_lower fromisoformat_utc pytz_moscow
        [status_entry ''2024-01-12T13:00:00Z'' ''In Progress'']
        ''2024-01-12'' ''2024-01-15'' ''In Progress'' = Inr 600"
    by (rule friday_to_monday_ten_hours [OF strptime_2024_01_12 p2 le refl wd ev st off])
  show ?thesis by (intro conjI strptime_2024_01_12 p2 le wd ev st off c)
qed

subsection \<open>The bounds of the period\<close>

text \<open>
  Claim C4.  The start of the period is 00:00:00 of the start date and its end
  23:59:59 of the end date on the wall clock, but the offset attached to both is
  that of the zone object itself, not the offset Moscow has on that date, which is
  the one the event timestamps get.  With pytz's zone object the two bounds lie 30 minutes
  after the Moscow instants the claim names.  The history below has the item in
  progress from Friday 12 January 2024 16:00 to Monday 15 January 08:15 Moscow time;
  for the period of that Monday alone the function returns 0 minutes, and 15 minutes
  when the bounds carry the offset of the events.
\<close>

theorem period_bounds_in_zone_object_offset:
  "calculate_in_progress_time_for_period ascii_lower fromisoformat_utc pytz_moscow
     [status_entry ''2024-01-12T13:00:00Z'' ''In Progress'',
      status_entry ''2024-01-15T05:15:00Z'' ''Done'']
     ''2024-01-15'' ''2024-01-15'' ''in progress'' = Inr 0
   \<and> calculate_in_progress_time_for_period ascii_lower fromisoformat_utc
        (pytz_moscow\<lparr>zone_utcoffset := 3 * HOUR\<rparr>)
        [status_entry ''2024-01-12T13:00:00Z'' ''In Progress'',
         status_entry ''2024-01-15T05:15:00Z'' ''Done'']
        ''2024-01-15'' ''2024-01-15'' ''in progress'' = Inr 15
   \<and> parse_iso_to_msk fromisoformat_utc pytz_moscow ''2024-01-15T05:15:00Z''
        = Inr \<lparr>wall = 738900 * DAY + 8 * HOUR + 15 * MINUTE, utcoffset = 3 * HOUR\<rparr>
   \<and> period_start_of pytz_moscow 738900
        = \<lparr>wall = 738900 * DAY, utcoffset = 2 * HOUR + 30 * MINUTE\<rparr>
   \<and> instant (period_start_of pytz_moscow 738900)
        = instant \<lparr>wall = 738900 * DAY + 30 * MINUTE, utcoffset = 3 * HOUR\<rparr>"
proof (intro conjI)
  show "calculate_in_progress_time_for_period ascii_lower fromisoformat_utc pytz_moscow
     [status_entry ''2024-01-12T13:00:00Z'' ''In Progress'',
      status_entry ''2024-01-15T05:15:00Z'' ''Done'']
     ''2024-01-15'' ''2024-01-15'' ''in progress'' = Inr 0"
    by code_simp
  show "calculate_in_progress_time_for_period ascii_lower fromisoformat_utc
        (pytz_moscow\<lparr>zone_utcoffset := 3 * HOUR\<rparr>)
        [status_entry ''2024-01-12T13:00:00Z'' ''In Progress'',
         status_entry ''2024-01-15T05:15:00Z'' ''Done'']
        ''2024-01-15'' ''2024-01-15'' ''in progress'' = Inr 15"
    by code_simp
  show "parse_iso_to_msk fromisoformat_utc pytz_moscow ''2024-01-15T05:15:00Z''
        = Inr \<lparr>wall = 738900 * DAY + 8 * HOUR + 15 * MINUTE, utcoffset = 3 * HOUR\<rparr>"
    by code_simp
  show "period_start_of pytz_moscow 738900
        = \<lparr>wall = 738900 * DAY, utcoffset = 2 * HOUR + 30 * MINUTE\<rparr>"
    by code_simp
  show "instant (period_start_of pytz_moscow 738900)
        = instant \<lparr>wall = 738900 * DAY + 30 * MINUTE, utcoffset = 3 * HOUR\<rparr>"
    by code_simp
qed

section \<open>Properties of the aggregator and the report builder\<close>

lemma write_tasks_nth:
  "i < length tasks \<Longrightarrow>
   Write (row + i) 3 (Number (dhl ! (j + i))) \<in> set (write_tasks row j tasks dhl)"
proof (induction tasks arbitrary: row j i)
  case Nil
  then show ?case by simp
next
  case (Cons t ts)
  obtain k n h where t: "t = (k, n, h)" by (cases t)
  show ?case
  proof (cases i)
    case 0
    with t show ?thesis by simp
  next
    case (Suc i')
    with Cons.prems have "i' < length ts" by simp
    from Cons.IH [OF this, of "row + 1" "j + 1"] Suc t show ?thesis by simp
  qed
qed

lemma display_hours_flip:
  "(if hours_of task \<ge> 1 then hours_of task else 1) = (if hours_of task < 1 then 1 else hours_of task)"
  by auto

text \<open>
  Claim C8.  For an assignee whose rows \<open>kept\<close> after filtering (and sorting) are not
  empty, let \<open>shown\<close> be the list of their hours in which every value under 1 is
  replaced by exactly 1 and every other value is left as it is.  The hours cell of
  row \<open>i\<close> is \<open>shown ! i\<close>, the total is Python's sum of \<open>shown\<close>, and the
  calls written for the group are the three cells of the assignee, with the days
  computed from that total, followed by the rows.
\<close>

theorem minimum_display_rule:
  fixes rest :: "('d \<times> ('k :: linorder, 'n) report_row list) list"
  assumes k: "kept = sort_key fst (filter (\<lambda>t. hours_of t > 0) tasks)"
    and ne: "kept \<noteq> []"
    and sh: "shown = map (\<lambda>t. if hours_of t < 1 then 1 else hours_of t) kept"
    and tot: "total_hours = py_sum shown"
  shows "write_groups round1 py_sum row ((display_name, tasks) # rest) =
      (if length kept > 1 then
         [Merge_range row 0 (row + length kept - 1) 0 (DisplayName display_name),
          Merge_range row 4 (row + length kept - 1) 4 (Number (round1 (total_hours / 8))),
          Merge_range row 5 (row + length kept - 1) 5 (Count (length kept))]
       else
         [Write row 0 (DisplayName display_name),
          Write row 4 (Number (round1 (total_hours / 8))),
          Write row 5 (Count (length kept))])
      @ write_tasks row 0 kept shown
      @ write_groups round1 py_sum (row + length kept) rest
    \<and> length shown = length kept
    \<and> (\<forall>i<length kept.
         shown ! i = (if hours_of (kept ! i) < 1 then 1 else hours_of (kept ! i))
         \<and> Write (row + i) 3 (Number (shown ! i))
             \<in> set (write_groups round1 py_sum row ((display_name, tasks) # rest)))"
proof -
  have f: "filter (\<lambda>t. hours_of t > 0) tasks \<noteq> []" using k ne by auto
  have eq: "write_groups round1 py_sum row ((display_name, tasks) # rest) =
      (if length kept > 1 then
         [Merge_range row 0 (row + length kept - 1) 0 (DisplayName display_name),
          Merge_range row 4 (row + length kept - 1) 4 (Number (round1 (total_hours / 8))),
          Merge_range row 5 (row + length kept - 1) 5 (Count (length kept))]
       else
         [Write row 0 (DisplayName display_name),
          Write row 4 (Number (round1 (total_hours / 8))),
          Write row 5 (Count (length kept))])
      @ write_tasks row 0 kept shown
      @ write_groups round1 py_sum (row + length kept) rest"
    using f unfolding tot sh k
    by (simp add: Let_def display_hours_flip del: length_sort)
  have len: "length shown = length kept" using sh by simp
  have "shown ! i = (if hours_of (kept ! i) < 1 then 1 else hours_of (kept ! i))
         \<and> Write (row + i) 3 (Number (shown ! i))
             \<in> set (write_groups round1 py_sum row ((display_name, tasks) # rest))"
    if "i < length kept" for i
  proof -
    have a: "shown ! i = (if hours_of (kept ! i) < 1 then 1 else hours_of (kept ! i))"
      using that sh by simp
    from write_tasks_nth [OF that, of row shown 0]
    have "Write (row + i) 3 (Number (shown ! i))
      \<in> set (write_tasks row 0 kept shown :: ('d, 'k, 'n) sheet_call list)"
      by simp
    then have "Write (row + i) 3 (Number (shown ! i))
             \<in> set (write_groups round1 py_sum row ((display_name, tasks) # rest))"
      unfolding eq by simp
    with a show ?thesis by simp
  qed
  with eq len show ?thesis by blast
qed

theorem minimum_display_rule_witness:
  "[(''T-1'', ''a'', 0.4), (''T-2'', ''b'', 1.4)]
     = sort_key fst (filter (\<lambda>t. hours_of t > 0)
         [(''T-2'', ''b'', 1.4), (''T-1'', ''a'', 0.4), (''T-3'', ''c'', 0)])
   \<and> [(''T-1'', ''a'', 0.4 :: rat), (''T-2'', ''b'', 1.4)] \<noteq> []
   \<and> [1, 1.4 :: rat] = map (\<lambda>t. if hours_of t < 1 then 1 else hours_of t)
                           [(''T-1'', ''a'', 0.4), (''T-2'', ''b'', 1.4)]
   \<and> (2.4 :: rat) = sum_list [1, 1.4]
   \<and> Write 1 3 (Number 1)
       \<in> set (write_groups round_half_even1 sum_list 1
                 [(''Ann'', [(''T-2'', ''b'', 1.4), (''T-1'', ''a'', 0.4), (''T-3'', ''c'', 0)])])
   \<and> Write 2 3 (Number 1.4)
       \<in> set (write_groups round_half_even1 sum_list 1
                 [(''Ann'', [(''T-2'', ''b'', 1.4), (''T-1'', ''a'', 0.4), (''T-3'', ''c'', 0)])])
   \<and> write_groups round_half_even1 sum_list 1
        [(''Ann'', [(''T-2'', ''b'', 1.4), (''T-1'', ''a'', 0.4), (''T-3'', ''c'', 0)])]
      = [Merge_range 1 0 2 0 (DisplayName ''Ann''), Merge_range 1 4 2 4 (Number 0.3),
         Merge_range 1 5 2 5 (Count 2),
         Write 1 1 (TaskKey ''T-1''), Write 1 2 (TaskName ''a''), Write 1 3 (Number 1),
         Write 2 1 (TaskKey ''T-2''), Write 2 2 (TaskName ''b''), Write 2 3 (Number 1.4)]"
proof -
  have k: "[(''T-1'', ''a'', 0.4), (''T-2'', ''b'', 1.4)]
     = sort_key fst (filter (\<lambda>t. hours_of t > 0)
         [(''T-2'', ''b'', 1.4), (''T-1'', ''a'', 0.4), (''T-3'', ''c'', 0)])"
    by code_simp
  have ne: "[(''T-1'', ''a'', 0.4 :: rat), (''T-2'', ''b'', 1.4)] \<noteq> []" by simp
  have sh: "[1, 1.4 :: rat] = map (\<lambda>t. if hours_of t < 1 then 1 else hours_of t)
                           [(''T-1'', ''a'', 0.4), (''T-2'', ''b'', 1.4)]"
    by code_simp
  have tot: "(2.4 :: rat) = sum_list [1, 1.4]"
    by code_simp
  have r: "round_half_even1 (3 / 10) = 3 / 10" by code_simp
  note t = minimum_display_rule [of _ _ _ _ sum_list round_half_even1 1 "''Ann''" "[]",
      OF k ne sh tot]
  have c1: "Write 1 3 (Number 1)
       \<in> set (write_groups round_half_even1 sum_list 1
                 [(''Ann'', [(''T-2'', ''b'', 1.4), (''T-1'', ''a'', 0.4), (''T-3'', ''c'', 0)])])"
    using t [THEN conjunct2, THEN conjunct2, THEN spec, of 0]
    by (simp del: write_groups.simps)
  have c2: "Write 2 3 (Number 1.4)
       \<in> set (write_groups round_half_even1 sum_list 1
                 [(''Ann'', [(''T-2'', ''b'', 1.4), (''T-1'', ''a'', 0.4), (''T-3'', ''c'', 0)])])"
    using t [THEN conjunct2, THEN conjunct2, THEN spec, of 1]
    by (simp del: write_groups.simps add: numeral_2_eq_2)
  have c3: "write_groups round_half_even1 sum_list 1
        [(''Ann'', [(''T-2'', ''b'', 1.4), (''T-1'', ''a'', 0.4), (''T-3'', ''c'', 0)])]
      = [Merge_range 1 0 2 0 (DisplayName ''Ann''), Merge_range 1 4 2 4 (Number 0.3),
         Merge_range 1 5 2 5 (Count 2),
         Write 1 1 (TaskKey ''T-1''), Write 1 2 (TaskName ''a''), Write 1 3 (Number 1),
         Write 2 1 (TaskKey ''T-2''), Write 2 2 (TaskName ''b''), Write 2 3 (Number 1.4)]"
    using t [THEN conjunct1] by (simp add: r)
  show ?thesis by (intro conjI k ne sh tot c1 c2 c3)
qed

text \<open>
  Claim C9.  For one item and one period, when the accumulator returns \<open>mins\<close>
  and \<open>hours\<close> is \<open>mins / 60\<close> rounded to one decimal place: if \<open>hours\<close> is
  positive, the row (key, task name, hours) is appended to the rows of that period and
  display name, and nothing else changes; otherwise the grouped structure is returned
  as it was.
\<close>

theorem row_appended_iff_positive:
  assumes c: "calculate_in_progress_time_for_period lower fromisoformat MOSCOW_TZ filtered_history
                 (p_start period) (p_end period) status_to_search = Inr mins"
    and g: "map_of grouped_by_period (p_start period, p_end period) = Some grouped_data"
    and h: "hours = round1 (mins / 60)"
    and o: "old_rows = (case map_of grouped_data display_name of None \<Rightarrow> [] | Some rows \<Rightarrow> rows)"
  shows "\<exists>g'. process_period lower fromisoformat MOSCOW_TZ round1 filtered_history status_to_search
               key task_name display_name grouped_by_period period = Inr g'
     \<and> (if hours > 0 then
          (\<exists>gd'. map_of g' (p_start period, p_end period) = Some gd'
              \<and> map_of gd' display_name = Some (old_rows @ [(key, task_name, hours)])
              \<and> (\<forall>n. n \<noteq> display_name \<longrightarrow> map_of gd' n = map_of grouped_data n))
          \<and> (\<forall>pk. pk \<noteq> (p_start period, p_end period)
                \<longrightarrow> map_of g' pk = map_of grouped_by_period pk)
        else g' = grouped_by_period)"
  using c g h o
  by (auto simp: process_period_def append_row_def Let_def update_conv')

theorem row_appended_iff_positive_witness:
  "calculate_in_progress_time_for_period ascii_lower fromisoformat_utc pytz_moscow
     [status_entry ''2024-01-12T13:00:00Z'' ''In Progress'']
     (p_start \<lparr>p_start = ''2024-01-12'', p_end = ''2024-01-15''\<rparr>)
     (p_end \<lparr>p_start = ''2024-01-12'', p_end = ''2024-01-15''\<rparr>) ''in progress'' = Inr 600
   \<and> map_of (init_grouped [\<lparr>p_start = ''2024-01-12'', p_end = ''2024-01-15''\<rparr>]
               :: (string, string, string) report_group)
        (p_start \<lparr>p_start = ''2024-01-12'', p_end = ''2024-01-15''\<rparr>,
         p_end \<lparr>p_start = ''2024-01-12'', p_end = ''2024-01-15''\<rparr>) = Some []
   \<and> (10 :: rat) = round_half_even1 (600 / 60)
   \<and> (\<exists>g' gd'.
        process_period ascii_lower fromisoformat_utc pytz_moscow round_half_even1
          [status_entry ''2024-01-12T13:00:00Z'' ''In Progress''] ''in progress''
          ''T-1'' ''Fix the report'' ''Ann''
          (init_grouped [\<lparr>p_start = ''2024-01-12'', p_end = ''2024-01-15''\<rparr>])
          \<lparr>p_start = ''2024-01-12'', p_end = ''2024-01-15''\<rparr> = Inr g'
        \<and> map_of g' (''2024-01-12'', ''2024-01-15'') = Some gd'
        \<and> map_of gd' ''Ann'' = Some [(''T-1'', ''Fix the report'', 10)])"
proof -
  let ?P = "\<lparr>p_start = ''2024-01-12'', p_end = ''2024-01-15''\<rparr>"
  have c: "calculate_in_progress_time_for_period ascii_lower fromisoformat_utc pytz_moscow
     [status_entry ''2024-01-12T13:00:00Z'' ''In Progress'']
     (p_start ?P) (p_end ?P) ''in progress'' = Inr 600"
    by code_simp
  have g: "map_of (init_grouped [?P] :: (string, string, string) report_group)
        (p_start ?P, p_end ?P) = Some []"
    by code_simp
  have h: "(10 :: rat) = round_half_even1 (600 / 60)" by code_simp
  have o: "([] :: (string, string) report_row list)
      = (case map_of ([] :: (string \<times> (string, string) report_row list) list) ''Ann'' of
           None \<Rightarrow> [] | Some rows \<Rightarrow> rows)"
    by simp
  have e: "\<exists>g' gd'.
        process_period ascii_lower fromisoformat_utc pytz_moscow round_half_even1
          [status_entry ''2024-01-12T13:00:00Z'' ''In Progress''] ''in progress''
          ''T-1'' ''Fix the report'' ''Ann'' (init_grouped [?P]) ?P = Inr g'
        \<and> map_of g' (''2024-01-12'', ''2024-01-15'') = Some gd'
        \<and> map_of gd' ''Ann'' = Some [(''T-1'', ''Fix the report'', 10)]"
    using row_appended_iff_positive [of ascii_lower fromisoformat_utc pytz_moscow
        "[status_entry ''2024-01-12T13:00:00Z'' ''In Progress'']" ?P "''in progress''" 600
        "init_grouped [?P]" "[]" 10 round_half_even1 "[]" "''Ann''" "''T-1''"
        "''Fix the report''", OF c g h o]
    by auto
  show ?thesis by (intro conjI c g h e)
qed

end
